theory Spec2Isabelle
  imports Main "HOL-Library.AList"
begin

section \<open>Text and character classes\<close>

text \<open>
  A line is a Python \<open>str\<close>. It is modelled as a \<open>string\<close> whose characters are the code
  points below 256; the classes below are the ones Python's \<open>re\<close> module and \<open>str.strip\<close>
  use on those code points (\<open>\d\<close>, \<open>\s\<close>, \<open>\w\<close>, and lower-casing under \<open>(?i)\<close>).
\<close>

definition code :: "char \<Rightarrow> nat" where
  "code c = of_char c"

definition is_digit :: "char \<Rightarrow> bool" where
  "is_digit c \<longleftrightarrow> 48 \<le> code c \<and> code c \<le> 57"

definition is_space :: "char \<Rightarrow> bool" where
  "is_space c \<longleftrightarrow>
     (9 \<le> code c \<and> code c \<le> 13) \<or> (28 \<le> code c \<and> code c \<le> 32) \<or> code c = 133 \<or> code c = 160"

definition is_word :: "char \<Rightarrow> bool" where
  "is_word c \<longleftrightarrow>
     (48 \<le> code c \<and> code c \<le> 57) \<or> (65 \<le> code c \<and> code c \<le> 90) \<or> code c = 95 \<or>
     (97 \<le> code c \<and> code c \<le> 122) \<or> code c = 170 \<or> code c = 178 \<or> code c = 179 \<or>
     code c = 181 \<or> code c = 185 \<or> code c = 186 \<or> (188 \<le> code c \<and> code c \<le> 190) \<or>
     (192 \<le> code c \<and> code c \<le> 214) \<or> (216 \<le> code c \<and> code c \<le> 246) \<or>
     (248 \<le> code c \<and> code c \<le> 255)"

definition lower :: "char \<Rightarrow> char" where
  "lower c =
     (if (65 \<le> code c \<and> code c \<le> 90) \<or> (192 \<le> code c \<and> code c \<le> 222 \<and> code c \<noteq> 215)
      then char_of (code c + 32) else c)"

text \<open>\<open>line.strip()\<close>: leading and trailing whitespace removed.\<close>

definition strip :: "string \<Rightarrow> string" where
  "strip s = rev (dropWhile is_space (rev (dropWhile is_space s)))"

section \<open>The regular expressions of \<open>analyze_line\<close>\<close>

text \<open>
  The fragment of Python's pattern language that the four patterns use. \<open>Lit c\<close> is a
  literal character, \<open>Digit\<close> is \<open>\d\<close>, \<open>Space\<close> is \<open>\s\<close>, \<open>AnyChar\<close> is \<open>.\<close>;
  \<open>Star k\<close> and \<open>Plus k\<close> are the greedy \<open>k*\<close> and \<open>k+\<close> over one such item,
  \<open>WordB\<close> is \<open>\b\<close>, \<open>Eos\<close> is \<open>$\<close>, \<open>Rep lo hi r\<close> is the greedy \<open>r{lo,hi}\<close>.
  Groups only delimit; no pattern reads a group other than the whole match.
\<close>

datatype cset = Lit char | Digit | Space | AnyChar

datatype regex =
    Chr cset
  | Star cset
  | Plus cset
  | WordB
  | Eos
  | Eps
  | Seq regex regex
  | Alt regex regex
  | Rep nat nat regex

text \<open>Whether one character matches an item; \<open>ic\<close> is the flag \<open>(?i)\<close>.\<close>

fun cmatch :: "bool \<Rightarrow> cset \<Rightarrow> char \<Rightarrow> bool" where
  "cmatch ic (Lit c) x = (if ic then lower x = lower c else x = c)"
| "cmatch ic Digit x = is_digit x"
| "cmatch ic Space x = is_space x"
| "cmatch ic AnyChar x = (x \<noteq> CHR 0x0A)"

text \<open>
  A position in the subject is a pair \<open>(b, a)\<close>: \<open>b\<close> is the text before the position,
  reversed, and \<open>a\<close> the text from the position on. \<open>\b\<close> holds where exactly one of the
  two neighbouring characters is a word character; \<open>$\<close> holds at the end and before a final
  newline.
\<close>

definition word_at :: "string \<Rightarrow> bool" where
  "word_at s = (case s of [] \<Rightarrow> False | c # _ \<Rightarrow> is_word c)"

definition at_boundary :: "string \<Rightarrow> string \<Rightarrow> bool" where
  "at_boundary b a \<longleftrightarrow> word_at b \<noteq> word_at a"

definition at_end :: "string \<Rightarrow> bool" where
  "at_end a \<longleftrightarrow> a = [] \<or> a = [CHR 0x0A]"

text \<open>
  The matcher returns the positions at which a match of the pattern started at \<open>(b, a)\<close> can
  end, in the order in which the backtracking engine tries them: a greedy repetition tries
  one more iteration before it tries to stop, an alternation its left branch first.
\<close>

fun star_m :: "bool \<Rightarrow> cset \<Rightarrow> string \<Rightarrow> string \<Rightarrow> (string \<times> string) list" where
  "star_m ic k b [] = [(b, [])]"
| "star_m ic k b (x # a) =
     (if cmatch ic k x then star_m ic k (x # b) a else []) @ [(b, x # a)]"

fun rsize :: "regex \<Rightarrow> nat" where
  "rsize (Seq r1 r2) = Suc (rsize r1 + rsize r2)"
| "rsize (Alt r1 r2) = Suc (rsize r1 + rsize r2)"
| "rsize (Rep lo hi r) = Suc (hi + rsize r)"
| "rsize r = 0"

function rmatch :: "bool \<Rightarrow> regex \<Rightarrow> string \<Rightarrow> string \<Rightarrow> (string \<times> string) list" where
  "rmatch ic (Chr k) b a =
     (case a of [] \<Rightarrow> [] | x # a' \<Rightarrow> if cmatch ic k x then [(x # b, a')] else [])"
| "rmatch ic (Star k) b a = star_m ic k b a"
| "rmatch ic (Plus k) b a =
     (case a of [] \<Rightarrow> [] | x # a' \<Rightarrow> if cmatch ic k x then star_m ic k (x # b) a' else [])"
| "rmatch ic WordB b a = (if at_boundary b a then [(b, a)] else [])"
| "rmatch ic Eos b a = (if at_end a then [(b, a)] else [])"
| "rmatch ic Eps b a = [(b, a)]"
| "rmatch ic (Seq r1 r2) b a =
     concat (map (\<lambda>p. rmatch ic r2 (fst p) (snd p)) (rmatch ic r1 b a))"
| "rmatch ic (Alt r1 r2) b a = rmatch ic r1 b a @ rmatch ic r2 b a"
| "rmatch ic (Rep lo hi r) b a =
     (if hi = 0 then [(b, a)]
      else concat (map (\<lambda>p. rmatch ic (Rep (lo - 1) (hi - 1) r) (fst p) (snd p)) (rmatch ic r b a))
           @ (if lo = 0 then [(b, a)] else []))"
  by pat_completeness auto
termination
  by (relation "measure (\<lambda>(ic, r, b, a). rsize r)") auto

text \<open>
  \<open>re.search\<close>: the leftmost position at which the pattern matches, and there the first
  match in the engine's order. The result is the text before the match, the match
  (\<open>group(0)\<close>) and the text after it; \<open>None\<close> when no position matches.
\<close>

fun search_at :: "bool \<Rightarrow> regex \<Rightarrow> string \<Rightarrow> string \<Rightarrow> (string \<times> string \<times> string) option" where
  "search_at ic r b a =
     (case rmatch ic r b a of
        p # _ \<Rightarrow> Some (rev b, rev (take (length (fst p) - length b) (fst p)), snd p)
      | [] \<Rightarrow> (case a of [] \<Rightarrow> None | x # a' \<Rightarrow> search_at ic r (x # b) a'))"

definition re_search :: "bool \<Rightarrow> regex \<Rightarrow> string \<Rightarrow> (string \<times> string \<times> string) option" where
  "re_search ic r s = search_at ic r [] s"

text \<open>A literal string of the pattern, character by character.\<close>

fun lits :: "string \<Rightarrow> regex" where
  "lits [] = Eps"
| "lits (c # cs) = Seq (Chr (Lit c)) (lits cs)"

text \<open>\<^verbatim>\<open>\b(?:\d{1,3}\.){3}\d{1,3}\b\<close>\<close>

definition ip_re :: regex where
  "ip_re =
     Seq WordB
       (Seq (Rep 3 3 (Seq (Rep 1 3 (Chr Digit)) (Chr (Lit CHR ''.''))))
         (Seq (Rep 1 3 (Chr Digit)) WordB))"

text \<open>\<^verbatim>\<open>(?i)(union\s+select|select.*from|drop\s+table|--\s*$)\<close>\<close>

definition sql_re :: regex where
  "sql_re =
     Alt (Seq (lits ''union'') (Seq (Plus Space) (lits ''select'')))
       (Alt (Seq (lits ''select'') (Seq (Star AnyChar) (lits ''from'')))
         (Alt (Seq (lits ''drop'') (Seq (Plus Space) (lits ''table'')))
           (Seq (lits ''--'') (Seq (Star Space) Eos))))"

text \<open>\<^verbatim>\<open>(?i)(<script>|alert\(|onload=|onerror=|javascript:)\<close>\<close>

definition xss_re :: regex where
  "xss_re =
     Alt (lits ''<script>'')
       (Alt (lits ''alert('')
         (Alt (lits ''onload='')
           (Alt (lits ''onerror='') (lits ''javascript:''))))"

text \<open>\<^verbatim>\<open>(?i)(failed login|authentication failure|invalid password)\<close>\<close>

definition brute_re :: regex where
  "brute_re =
     Alt (lits ''failed login'')
       (Alt (lits ''authentication failure'') (lits ''invalid password''))"

section \<open>The analyzer\<close>

text \<open>
  An entry of \<open>attacks['sql_injection']\<close>, \<open>attacks['xss']\<close> or \<open>attacks['brute_force']\<close>
  has the keys \<open>line\<close>, \<open>ip\<close> and \<open>content\<close>; an entry of \<open>attacks['ddos']\<close> has
  \<open>line\<close>, \<open>ip\<close> and \<open>count\<close>. Python's \<open>None\<close> is \<open>None\<close>.
\<close>

record event =
  ev_line :: int
  ev_ip :: "string option"
  ev_content :: string

record ddos_event =
  dd_line :: int
  dd_ip :: "string option"
  dd_count :: int

record stats =
  total_attacks :: int
  sql_injection_count :: int
  xss_count :: int
  ddos_count :: int
  brute_force_count :: int
  unique_ips :: "string set"

record attacks =
  sql_injection :: "event list"
  xss :: "event list"
  ddos :: "ddos_event list"
  brute_force :: "event list"

text \<open>
  \<open>ip_frequency\<close> is a \<open>defaultdict(int)\<close>: an association list in insertion order, as a
  Python dictionary keeps its keys.
\<close>

record analyzer =
  stats :: stats
  ip_frequency :: "(string \<times> int) list"
  attacks :: attacks

text \<open>\<open>LogAnalyzer.__init__\<close>\<close>

definition LogAnalyzer :: analyzer where
  "LogAnalyzer =
     \<lparr>stats = \<lparr>total_attacks = 0, sql_injection_count = 0, xss_count = 0, ddos_count = 0,
               brute_force_count = 0, unique_ips = {}\<rparr>,
      ip_frequency = [],
      attacks = \<lparr>sql_injection = [], xss = [], ddos = [], brute_force = []\<rparr>\<rparr>"

text \<open>
  Reading \<open>d[k]\<close> from a \<open>defaultdict(int)\<close> gives the stored value; a missing key is first
  inserted with the value 0. The result is the value and the dictionary after the read.
\<close>

definition dd_getitem :: "(string \<times> int) list \<Rightarrow> string \<Rightarrow> int \<times> (string \<times> int) list" where
  "dd_getitem d k =
     (case map_of d k of Some v \<Rightarrow> (v, d) | None \<Rightarrow> (0, AList.update k 0 d))"

text \<open>\<open>d[k] += 1\<close>\<close>

definition dd_incr :: "(string \<times> int) list \<Rightarrow> string \<Rightarrow> (string \<times> int) list" where
  "dd_incr d k = (case dd_getitem d k of (v, d') \<Rightarrow> AList.update k (v + 1) d')"

text \<open>\<open>ip_match.group(0) if ip_match else None\<close>\<close>

definition extract_ip :: "string \<Rightarrow> string option" where
  "extract_ip line =
     (case re_search False ip_re line of Some (_, m, _) \<Rightarrow> Some m | None \<Rightarrow> None)"

text \<open>The truth value of \<open>ip\<close> in \<open>if ip\<close>: \<open>None\<close> and the empty string are false.\<close>

definition truthy :: "string option \<Rightarrow> bool" where
  "truthy ip = (case ip of None \<Rightarrow> False | Some a \<Rightarrow> a \<noteq> [])"

text \<open>The five steps of \<open>analyze_line\<close>, in the order of the source.\<close>

definition count_ip :: "analyzer \<Rightarrow> string option \<Rightarrow> analyzer" where
  "count_ip self ip =
     (case ip of
        None \<Rightarrow> self
      | Some a \<Rightarrow>
          if a = [] then self
          else self\<lparr>stats := (stats self)\<lparr>unique_ips := insert a (unique_ips (stats self))\<rparr>,
                    ip_frequency := dd_incr (ip_frequency self) a\<rparr>)"

definition check_sql_injection :: "analyzer \<Rightarrow> string \<Rightarrow> int \<Rightarrow> string option \<Rightarrow> analyzer" where
  "check_sql_injection self line line_number ip =
     (if re_search True sql_re line \<noteq> None
      then self\<lparr>stats := (stats self)\<lparr>sql_injection_count := sql_injection_count (stats self) + 1\<rparr>,
                attacks := (attacks self)\<lparr>sql_injection := sql_injection (attacks self) @
                   [\<lparr>ev_line = line_number, ev_ip = ip, ev_content = strip line\<rparr>]\<rparr>\<rparr>
      else self)"

definition check_xss :: "analyzer \<Rightarrow> string \<Rightarrow> int \<Rightarrow> string option \<Rightarrow> analyzer" where
  "check_xss self line line_number ip =
     (if re_search True xss_re line \<noteq> None
      then self\<lparr>stats := (stats self)\<lparr>xss_count := xss_count (stats self) + 1\<rparr>,
                attacks := (attacks self)\<lparr>xss := xss (attacks self) @
                   [\<lparr>ev_line = line_number, ev_ip = ip, ev_content = strip line\<rparr>]\<rparr>\<rparr>
      else self)"

definition check_ddos :: "analyzer \<Rightarrow> int \<Rightarrow> string option \<Rightarrow> analyzer" where
  "check_ddos self line_number ip =
     (case ip of
        None \<Rightarrow> self
      | Some a \<Rightarrow>
          if a = [] then self
          else
            (case dd_getitem (ip_frequency self) a of
               (c, d) \<Rightarrow>
                 let self1 = self\<lparr>ip_frequency := d\<rparr> in
                 if c > 100 then
                   if \<not> list_ex (\<lambda>attack. dd_ip attack = ip) (ddos (attacks self1)) then
                     (case dd_getitem d a of
                        (c', d') \<Rightarrow>
                          self1\<lparr>stats := (stats self1)\<lparr>ddos_count := ddos_count (stats self1) + 1\<rparr>,
                                 ip_frequency := d',
                                 attacks := (attacks self1)\<lparr>ddos := ddos (attacks self1) @
                                    [\<lparr>dd_line = line_number, dd_ip = ip, dd_count = c'\<rparr>]\<rparr>\<rparr>)
                   else self1
                 else self1))"

definition check_brute_force :: "analyzer \<Rightarrow> string \<Rightarrow> int \<Rightarrow> string option \<Rightarrow> analyzer" where
  "check_brute_force self line line_number ip =
     (if re_search True brute_re line \<noteq> None
      then self\<lparr>stats := (stats self)\<lparr>brute_force_count := brute_force_count (stats self) + 1\<rparr>,
                attacks := (attacks self)\<lparr>brute_force := brute_force (attacks self) @
                   [\<lparr>ev_line = line_number, ev_ip = ip, ev_content = strip line\<rparr>]\<rparr>\<rparr>
      else self)"

definition analyze_line :: "analyzer \<Rightarrow> string \<Rightarrow> int \<Rightarrow> analyzer" where
  "analyze_line self line line_number =
     (let ip = extract_ip line;
          s1 = count_ip self ip;
          s2 = check_sql_injection s1 line line_number ip;
          s3 = check_xss s2 line line_number ip;
          s4 = check_ddos s3 line_number ip
      in check_brute_force s4 line line_number ip)"

text \<open>
  The report that \<open>analyze_file\<close> returns. Its \<open>unique_ips\<close> is the size of the set.
\<close>

record report_stats =
  r_total_attacks :: int
  r_sql_injection_count :: int
  r_xss_count :: int
  r_ddos_count :: int
  r_brute_force_count :: int
  r_unique_ips :: int

record report =
  r_stats :: report_stats
  r_ip_frequency :: "(string \<times> int) list"
  r_sql_injection :: "event list"
  r_xss :: "event list"
  r_ddos :: "ddos_event list"
  r_brute_force :: "event list"

text \<open>
  The loop of \<open>analyze_file\<close> over the lines of the file, already decoded to text;
  \<open>line_number\<close> is incremented before each call of \<open>analyze_line\<close>.
\<close>

fun analyze_lines :: "analyzer \<Rightarrow> int \<Rightarrow> string list \<Rightarrow> analyzer" where
  "analyze_lines self line_number [] = self"
| "analyze_lines self line_number (line # file) =
     analyze_lines (analyze_line self line (line_number + 1)) (line_number + 1) file"

text \<open>\<open>analyze_file\<close> returns the analyzer as it leaves it and the report.\<close>

definition analyze_file :: "analyzer \<Rightarrow> string list \<Rightarrow> analyzer \<times> report" where
  "analyze_file self file =
     (let s = analyze_lines self 0 file;
          s' = s\<lparr>stats := (stats s)\<lparr>total_attacks :=
                  sql_injection_count (stats s) + xss_count (stats s) +
                  ddos_count (stats s) + brute_force_count (stats s)\<rparr>\<rparr>
      in (s',
          \<lparr>r_stats =
             \<lparr>r_total_attacks = total_attacks (stats s'),
              r_sql_injection_count = sql_injection_count (stats s'),
              r_xss_count = xss_count (stats s'),
              r_ddos_count = ddos_count (stats s'),
              r_brute_force_count = brute_force_count (stats s'),
              r_unique_ips = int (card (unique_ips (stats s')))\<rparr>,
           r_ip_frequency = ip_frequency s',
           r_sql_injection = sql_injection (attacks s'),
           r_xss = xss (attacks s'),
           r_ddos = ddos (attacks s'),
           r_brute_force = brute_force (attacks s')\<rparr>))"

text \<open>
  The states an analyzer can be in: as constructed, after a call of \<open>analyze_line\<close>, after
  a call of \<open>analyze_file\<close>.
\<close>

inductive reachable :: "analyzer \<Rightarrow> bool" where
  reach_new: "reachable LogAnalyzer"
| reach_line: "reachable s \<Longrightarrow> reachable (analyze_line s l n)"
| reach_file: "reachable s \<Longrightarrow> reachable (fst (analyze_file s f))"

text \<open>The count stored for a key, 0 when the key has no entry.\<close>

definition freq :: "(string \<times> int) list \<Rightarrow> string \<Rightarrow> int" where
  "freq d k = (case map_of d k of None \<Rightarrow> 0 | Some v \<Rightarrow> v)"

text \<open>
  The entries that \<open>analyze_line\<close> appends to \<open>attacks['ddos']\<close> for one line: none or one.
\<close>

definition ddos_new :: "analyzer \<Rightarrow> string \<Rightarrow> int \<Rightarrow> ddos_event list" where
  "ddos_new s l n =
     (case extract_ip l of None \<Rightarrow> []
      | Some a \<Rightarrow>
          if a \<noteq> [] \<and> freq (ip_frequency s) a + 1 > 100 \<and>
             \<not> list_ex (\<lambda>attack. dd_ip attack = Some a) (ddos (attacks s))
          then [\<lparr>dd_line = n, dd_ip = Some a, dd_count = freq (ip_frequency s) a + 1\<rparr>] else [])"





text \<open>
  \<open>accepts ic r p u q\<close>: in the subject \<open>p @ u @ q\<close> the pattern \<open>r\<close>, started after \<open>p\<close>,
  can match exactly \<open>u\<close>. \<open>rpow n r\<close> is \<open>n\<close> copies of \<open>r\<close> in sequence.
\<close>

definition accepts :: "bool \<Rightarrow> regex \<Rightarrow> string \<Rightarrow> string \<Rightarrow> string \<Rightarrow> bool" where
  "accepts ic r p u q \<longleftrightarrow> (rev u @ rev p, q) \<in> set (rmatch ic r (rev p) (u @ q))"

fun rpow :: "nat \<Rightarrow> regex \<Rightarrow> regex" where
  "rpow 0 r = Eps"
| "rpow (Suc n) r = Seq r (rpow n r)"

section \<open>The patterns in the words of the specification\<close>

text \<open>
  Two texts are equal case-insensitively when they are equal after lower-casing. A text is
  preceded (followed) by a word character when its last (first) character is one.
\<close>

definition ci_eq :: "string \<Rightarrow> string \<Rightarrow> bool" where
  "ci_eq u w \<longleftrightarrow> map lower u = map lower w"

definition contains_ci :: "string \<Rightarrow> string \<Rightarrow> bool" where
  "contains_ci l w \<longleftrightarrow> (\<exists>p u q. l = p @ u @ q \<and> ci_eq u w)"

definition word_before :: "string \<Rightarrow> bool" where
  "word_before p \<longleftrightarrow> p \<noteq> [] \<and> is_word (last p)"

definition word_after :: "string \<Rightarrow> bool" where
  "word_after q \<longleftrightarrow> q \<noteq> [] \<and> is_word (hd q)"

text \<open>A group of one to three digits; four such groups separated by dots.\<close>

definition digit_group :: "string \<Rightarrow> bool" where
  "digit_group g \<longleftrightarrow> 1 \<le> length g \<and> length g \<le> 3 \<and> list_all is_digit g"

definition ipv4_shaped :: "string \<Rightarrow> bool" where
  "ipv4_shaped m \<longleftrightarrow>
     (\<exists>g1 g2 g3 g4. m = g1 @ ''.'' @ g2 @ ''.'' @ g3 @ ''.'' @ g4 \<and>
        digit_group g1 \<and> digit_group g2 \<and> digit_group g3 \<and> digit_group g4)"





text \<open>
  An occurrence of an address in a line: a substring of the shape of an address with no word
  character directly before or after it. The first occurrence is the one that starts
  leftmost.
\<close>

definition ip_occurrence :: "string \<Rightarrow> string \<Rightarrow> string \<Rightarrow> string \<Rightarrow> bool" where
  "ip_occurrence l p m q \<longleftrightarrow>
     l = p @ m @ q \<and> ipv4_shaped m \<and> \<not> word_before p \<and> \<not> word_after q"

definition first_ip_occurrence :: "string \<Rightarrow> string \<Rightarrow> bool" where
  "first_ip_occurrence l m \<longleftrightarrow>
     (\<exists>p q. ip_occurrence l p m q \<and>
        (\<forall>p' m' q'. ip_occurrence l p' m' q' \<longrightarrow> length p \<le> length p'))"

section \<open>Properties of the matcher\<close>

text \<open>
  The equation of \<open>Rep\<close> unfolds itself; it is used through the two lemmas below, which
  unfold it once.
\<close>

declare rmatch.simps(9) [simp del]

lemma rmatch_Rep_zero [simp]: "rmatch ic (Rep lo 0 r) b a = [(b, a)]"
  by (simp add: rmatch.simps(9))

lemma rmatch_Rep_pos [simp]:
  "hi \<noteq> 0 \<Longrightarrow> rmatch ic (Rep lo hi r) b a =
     concat (map (\<lambda>p. rmatch ic (Rep (lo - 1) (hi - 1) r) (fst p) (snd p)) (rmatch ic r b a))
       @ (if lo = 0 then [(b, a)] else [])"
  by (simp add: rmatch.simps(9))

lemma star_m_set:
  "set (star_m ic k b a) = {(rev u @ b, v) | u v. a = u @ v \<and> (\<forall>x\<in>set u. cmatch ic k x)}"
proof (induction a arbitrary: b)
  case Nil
  then show ?case by auto
next
  case (Cons x a)
  show ?case
  proof (rule set_eqI, clarify)
    fix b' a'
    show "(b', a') \<in> set (star_m ic k b (x # a)) \<longleftrightarrow>
          (b', a') \<in> {(rev u @ b, v) | u v. x # a = u @ v \<and> (\<forall>x\<in>set u. cmatch ic k x)}"
    proof
      assume "(b', a') \<in> set (star_m ic k b (x # a))"
      then consider "cmatch ic k x" "(b', a') \<in> set (star_m ic k (x # b) a)" | "b' = b" "a' = x # a"
        by (auto split: if_splits)
      then show "(b', a') \<in> {(rev u @ b, v) | u v. x # a = u @ v \<and> (\<forall>x\<in>set u. cmatch ic k x)}"
      proof cases
        case 1
        then obtain u where "a = u @ a'" "b' = rev u @ x # b" "\<forall>y\<in>set u. cmatch ic k y"
          using Cons.IH[of "x # b"] by auto
        then show ?thesis using 1(1) by (intro CollectI exI[of _ "x # u"] exI[of _ a']) simp
      next
        case 2
        then show ?thesis by (intro CollectI exI[of _ "[]"] exI[of _ a']) simp
      qed
    next
      assume "(b', a') \<in> {(rev u @ b, v) | u v. x # a = u @ v \<and> (\<forall>x\<in>set u. cmatch ic k x)}"
      then obtain u where u: "x # a = u @ a'" "b' = rev u @ b" "\<forall>y\<in>set u. cmatch ic k y" by auto
      show "(b', a') \<in> set (star_m ic k b (x # a))"
      proof (cases u)
        case Nil
        with u have "a' = x # a" "b' = b" by simp_all
        then show ?thesis by simp
      next
        case (Cons y u')
        then have "y = x" "a = u' @ a'" "cmatch ic k x" "\<forall>y\<in>set u'. cmatch ic k y" using u by auto
        then have "(rev u' @ x # b, a') \<in> set (star_m ic k (x # b) a)"
          using Cons.IH[of "x # b"] by auto
        then show ?thesis using u Cons \<open>y = x\<close> \<open>cmatch ic k x\<close> by simp
      qed
    qed
  qed
qed

lemma rmatch_frame:
  "(b', a') \<in> set (rmatch ic r b a) \<Longrightarrow> \<exists>u. a = u @ a' \<and> b' = rev u @ b"
proof (induction ic r b a arbitrary: b' a' rule: rmatch.induct)
  case (1 ic k b a)
  then show ?case by (auto split: list.splits if_splits)
next
  case (2 ic k b a)
  then show ?case by (auto simp: star_m_set)
next
  case (3 ic k b a)
  then show ?case by (auto simp: star_m_set split: list.splits if_splits)
next
  case (4 ic b a)
  then show ?case by (auto split: if_splits)
next
  case (5 ic b a)
  then show ?case by (auto split: if_splits)
next
  case (6 ic b a)
  then show ?case by auto
next
  case (7 ic r1 r2 b a)
  from "7.prems" obtain b1 a1 where m1: "(b1, a1) \<in> set (rmatch ic r1 b a)"
    and m2: "(b', a') \<in> set (rmatch ic r2 b1 a1)" by auto
  from "7.IH"(1)[OF m1] obtain u1 where u1: "a = u1 @ a1" "b1 = rev u1 @ b" by auto
  from "7.IH"(2)[OF m1, of b' a'] m2 obtain u2 where u2: "a1 = u2 @ a'" "b' = rev u2 @ b1" by auto
  show ?case using u1 u2 by (intro exI[of _ "u1 @ u2"]) simp
next
  case (8 ic r1 r2 b a)
  then show ?case by auto
next
  case (9 ic lo hi r b a)
  show ?case
  proof (cases "hi = 0")
    case True
    then show ?thesis using "9.prems" by simp
  next
    case False
    from "9.prems" False consider
      (more) b1 a1 where "(b1, a1) \<in> set (rmatch ic r b a)"
        "(b', a') \<in> set (rmatch ic (Rep (lo - 1) (hi - 1) r) b1 a1)"
      | (stop) "b' = b" "a' = a"
      by (cases "lo = 0") auto
    then show ?thesis
    proof cases
      case more
      from "9.IH"(1)[OF False more(1)] obtain u1 where u1: "a = u1 @ a1" "b1 = rev u1 @ b" by auto
      from "9.IH"(2)[OF False more(1), of b' a'] more(2) obtain u2 where u2: "a1 = u2 @ a'" "b' = rev u2 @ b1" by auto
      show ?thesis using u1 u2 by (intro exI[of _ "u1 @ u2"]) simp
    next
      case stop
      then show ?thesis by simp
    qed
  qed
qed

lemma rmatch_set:
  "set (rmatch ic r b a) = {(rev u @ b, v) | u v. a = u @ v \<and> accepts ic r (rev b) u v}"
proof (rule set_eqI, clarify)
  fix b' a'
  show "(b', a') \<in> set (rmatch ic r b a) \<longleftrightarrow>
        (b', a') \<in> {(rev u @ b, v) | u v. a = u @ v \<and> accepts ic r (rev b) u v}"
  proof
    assume m: "(b', a') \<in> set (rmatch ic r b a)"
    then obtain u where u: "a = u @ a'" "b' = rev u @ b" using rmatch_frame by blast
    with m have "accepts ic r (rev b) u a'" by (simp add: accepts_def)
    with u show "(b', a') \<in> {(rev u @ b, v) | u v. a = u @ v \<and> accepts ic r (rev b) u v}" by blast
  next
    assume "(b', a') \<in> {(rev u @ b, v) | u v. a = u @ v \<and> accepts ic r (rev b) u v}"
    then show "(b', a') \<in> set (rmatch ic r b a)" by (auto simp: accepts_def)
  qed
qed

text \<open>What each construct of the pattern language accepts.\<close>

lemma in_rmatch:
  "(b', a') \<in> set (rmatch ic r b a) \<longleftrightarrow>
     (\<exists>u. a = u @ a' \<and> b' = rev u @ b \<and> accepts ic r (rev b) u a')"
  by (auto simp: rmatch_set)

lemma accepts_Chr: "accepts ic (Chr k) p u q \<longleftrightarrow> (\<exists>x. u = [x] \<and> cmatch ic k x)"
  by (cases u) (auto simp: accepts_def split: if_splits)



lemma accepts_WordB: "accepts ic WordB p u q \<longleftrightarrow> u = [] \<and> at_boundary (rev p) q"
  by (auto simp: accepts_def split: if_splits)


lemma accepts_Eps: "accepts ic Eps p u q \<longleftrightarrow> u = []"
  by (auto simp: accepts_def)

lemma accepts_Alt:
  "accepts ic (Alt r1 r2) p u q \<longleftrightarrow> accepts ic r1 p u q \<or> accepts ic r2 p u q"
  by (auto simp: accepts_def)

lemma accepts_Seq:
  "accepts ic (Seq r1 r2) p u q \<longleftrightarrow>
     (\<exists>u1 u2. u = u1 @ u2 \<and> accepts ic r1 p u1 (u2 @ q) \<and> accepts ic r2 (p @ u1) u2 q)"
proof
  assume "accepts ic (Seq r1 r2) p u q"
  then obtain b1 a1 where m1: "(b1, a1) \<in> set (rmatch ic r1 (rev p) (u @ q))"
    and m2: "(rev u @ rev p, q) \<in> set (rmatch ic r2 b1 a1)"
    by (auto simp: accepts_def)
  from m1 obtain u1 where u1: "u @ q = u1 @ a1" "b1 = rev u1 @ rev p" "accepts ic r1 p u1 a1"
    by (auto simp: in_rmatch)
  from m2 obtain u2 where u2: "a1 = u2 @ q" "rev u @ rev p = rev u2 @ b1"
    "accepts ic r2 (rev b1) u2 q"
    by (auto simp: in_rmatch)
  from u1(1) u2(1) have "u @ q = (u1 @ u2) @ q" by simp
  then have "u = u1 @ u2" by (simp only: append_same_eq)
  with u1 u2 show "\<exists>u1 u2. u = u1 @ u2 \<and> accepts ic r1 p u1 (u2 @ q) \<and> accepts ic r2 (p @ u1) u2 q"
    by auto
next
  assume "\<exists>u1 u2. u = u1 @ u2 \<and> accepts ic r1 p u1 (u2 @ q) \<and> accepts ic r2 (p @ u1) u2 q"
  then obtain u1 u2 where u: "u = u1 @ u2" and a1: "accepts ic r1 p u1 (u2 @ q)"
    and a2: "accepts ic r2 (p @ u1) u2 q" by blast
  from a1 have "(rev u1 @ rev p, u2 @ q) \<in> set (rmatch ic r1 (rev p) (u @ q))"
    by (simp add: accepts_def u)
  moreover from a2 have "(rev u @ rev p, q) \<in> set (rmatch ic r2 (rev u1 @ rev p) (u2 @ q))"
    by (simp add: accepts_def u)
  ultimately show "accepts ic (Seq r1 r2) p u q"
    unfolding accepts_def by (simp, intro bexI[of _ "(rev u1 @ rev p, u2 @ q)"]) simp_all
qed

lemma accepts_Rep_0: "accepts ic (Rep lo 0 r) p u q \<longleftrightarrow> u = []"
  by (auto simp: accepts_def)

lemma accepts_Rep_Suc:
  "accepts ic (Rep lo (Suc hi) r) p u q \<longleftrightarrow>
     (lo = 0 \<and> u = []) \<or> accepts ic (Seq r (Rep (lo - 1) hi r)) p u q"
  by (auto simp: accepts_def)

lemma accepts_Rep:
  "lo \<le> hi \<Longrightarrow> accepts ic (Rep lo hi r) p u q \<longleftrightarrow>
     (\<exists>n. lo \<le> n \<and> n \<le> hi \<and> accepts ic (rpow n r) p u q)"
proof (induction hi arbitrary: lo p u q)
  case 0
  then show ?case by (simp add: accepts_Rep_0 accepts_Eps)
next
  case (Suc hi)
  have seq: "accepts ic (Seq r (Rep (lo - 1) hi r)) p u q \<longleftrightarrow>
      (\<exists>n. lo - 1 \<le> n \<and> n \<le> hi \<and> accepts ic (rpow (Suc n) r) p u q)"
    using Suc.prems by (auto simp: accepts_Seq Suc.IH)
  show ?case
  proof
    assume "accepts ic (Rep lo (Suc hi) r) p u q"
    then consider "lo = 0" "u = []" | "accepts ic (Seq r (Rep (lo - 1) hi r)) p u q"
      by (auto simp: accepts_Rep_Suc)
    then show "\<exists>n. lo \<le> n \<and> n \<le> Suc hi \<and> accepts ic (rpow n r) p u q"
    proof cases
      case 1
      then show ?thesis by (intro exI[of _ 0]) (simp add: accepts_Eps)
    next
      case 2
      then obtain n where "lo - 1 \<le> n" "n \<le> hi" "accepts ic (rpow (Suc n) r) p u q"
        using seq by blast
      then show ?thesis by (intro exI[of _ "Suc n"]) auto
    qed
  next
    assume "\<exists>n. lo \<le> n \<and> n \<le> Suc hi \<and> accepts ic (rpow n r) p u q"
    then obtain n where n: "lo \<le> n" "n \<le> Suc hi" "accepts ic (rpow n r) p u q" by blast
    show "accepts ic (Rep lo (Suc hi) r) p u q"
    proof (cases n)
      case 0
      then show ?thesis using n by (simp add: accepts_Rep_Suc accepts_Eps)
    next
      case (Suc m)
      then have "lo - 1 \<le> m" "m \<le> hi" "accepts ic (rpow (Suc m) r) p u q" using n by auto
      then have "accepts ic (Seq r (Rep (lo - 1) hi r)) p u q" using seq by blast
      then show ?thesis by (simp add: accepts_Rep_Suc)
    qed
  qed
qed

lemma accepts_Chr_Seq:
  "accepts ic (Seq (Chr k) r) p u q \<longleftrightarrow>
     (\<exists>x u'. u = x # u' \<and> cmatch ic k x \<and> accepts ic r (p @ [x]) u' q)"
proof
  assume "accepts ic (Seq (Chr k) r) p u q"
  then obtain u1 u2 where "u = u1 @ u2" "accepts ic (Chr k) p u1 (u2 @ q)"
    "accepts ic r (p @ u1) u2 q"
    unfolding accepts_Seq by blast
  then show "\<exists>x u'. u = x # u' \<and> cmatch ic k x \<and> accepts ic r (p @ [x]) u' q"
    by (auto simp: accepts_Chr)
next
  assume "\<exists>x u'. u = x # u' \<and> cmatch ic k x \<and> accepts ic r (p @ [x]) u' q"
  then obtain x u' where "u = [x] @ u'" "accepts ic (Chr k) p [x] (u' @ q)"
    "accepts ic r (p @ [x]) u' q"
    by (auto simp: accepts_Chr)
  then show "accepts ic (Seq (Chr k) r) p u q"
    unfolding accepts_Seq by blast
qed

lemma accepts_lits:
  "accepts ic (lits w) p u q \<longleftrightarrow> list_all2 (\<lambda>x c. cmatch ic (Lit c) x) u w"
proof (induction w arbitrary: p u)
  case Nil
  then show ?case by (simp add: accepts_Eps)
next
  case (Cons c w)
  show ?case
    by (cases u) (simp_all add: accepts_Chr_Seq Cons.IH del: cmatch.simps)
qed

lemma accepts_rpow_Chr:
  "accepts ic (rpow n (Chr k)) p u q \<longleftrightarrow> length u = n \<and> (\<forall>x\<in>set u. cmatch ic k x)"
proof (induction n arbitrary: p u)
  case 0
  then show ?case by (auto simp: accepts_Eps)
next
  case (Suc n)
  show ?case
    by (cases u) (auto simp: accepts_Chr_Seq Suc.IH)
qed

text \<open>
  The equation of \<open>search_at\<close> unfolds itself as well; the two lemmas after it unfold it once,
  when the matcher's result at the position is known.
\<close>

declare search_at.simps [simp del]

lemma search_at_miss:
  "rmatch ic r b a = [] \<Longrightarrow>
     search_at ic r b a = (case a of [] \<Rightarrow> None | x # a' \<Rightarrow> search_at ic r (x # b) a')"
  by (simp add: search_at.simps)

lemma search_at_hit:
  "rmatch ic r b a = x # rest \<Longrightarrow>
     search_at ic r b a = Some (rev b, rev (take (length (fst x) - length b) (fst x)), snd x)"
  by (simp add: search_at.simps)

lemma search_at_Some:
  "search_at ic r b a = Some (p, m, q) \<Longrightarrow>
     \<exists>u. a = u @ m @ q \<and> p = rev b @ u \<and>
         (\<exists>rest. rmatch ic r (rev p) (m @ q) = (rev m @ rev p, q) # rest) \<and>
         (\<forall>u' m' q'. a = u' @ m' @ q' \<and> accepts ic r (rev b @ u') m' q' \<longrightarrow> length u \<le> length u')"
proof (induction a arbitrary: b)
  case Nil
  show ?case
  proof (cases "rmatch ic r b []")
    case Nil
    with Nil.prems show ?thesis by (simp add: search_at_miss)
  next
    case (Cons x rest)
    then have "x \<in> set (rmatch ic r b [])" by simp
    then have "\<exists>u. [] = u @ snd x \<and> fst x = rev u @ b"
      using rmatch_frame[of "fst x" "snd x" ic r b "[]"] by simp
    then have x: "x = (b, [])" by (cases x) simp
    from Nil.prems Cons have "p = rev b" "m = []" "q = []"
      by (simp_all add: search_at_hit x)
    with Cons x show ?thesis by simp
  qed
next
  case (Cons c a)
  show ?case
  proof (cases "rmatch ic r b (c # a)")
    case Nil
    with Cons.prems have s: "search_at ic r (c # b) a = Some (p, m, q)"
      by (simp add: search_at_miss)
    from Cons.IH[OF s] obtain u where u: "a = u @ m @ q" "p = rev (c # b) @ u"
      "\<exists>rest. rmatch ic r (rev p) (m @ q) = (rev m @ rev p, q) # rest"
      "\<forall>u' m' q'. a = u' @ m' @ q' \<and> accepts ic r (rev (c # b) @ u') m' q' \<longrightarrow> length u \<le> length u'"
      by blast
    have min: "length (c # u) \<le> length u'"
      if h: "c # a = u' @ m' @ q'" "accepts ic r (rev b @ u') m' q'" for u' m' q'
    proof (cases u')
      case Nil
      with h have "(rev m' @ b, q') \<in> set (rmatch ic r b (c # a))"
        by (simp add: accepts_def)
      with \<open>rmatch ic r b (c # a) = []\<close> show ?thesis by simp
    next
      case (Cons c' u'')
      with h have "a = u'' @ m' @ q'" "accepts ic r (rev (c # b) @ u'') m' q'" by simp_all
      with u(4) have "length u \<le> length u''" by blast
      with Cons show ?thesis by simp
    qed
    have "c # a = (c # u) @ m @ q" "p = rev b @ c # u" using u(1,2) by simp_all
    with u(3) min show ?thesis by blast
  next
    case (Cons x rest)
    then have "x \<in> set (rmatch ic r b (c # a))" by simp
    then obtain m0 where m0: "c # a = m0 @ snd x" "fst x = rev m0 @ b"
      using rmatch_frame[of "fst x" "snd x" ic r b "c # a"] by auto
    from Cons Cons.prems have res: "p = rev b" "m = rev (take (length (fst x) - length b) (fst x))"
      "q = snd x" by (simp_all add: search_at_hit)
    from res(2) m0(2) have mm: "m = m0" by simp
    have rp: "rev p = b" using res(1) by simp
    have mq: "m @ q = c # a" using m0(1) res(3) mm by simp
    have "x = (fst x, snd x)" by simp
    also have "\<dots> = (rev m @ rev p, q)" using m0(2) res(3) mm rp by simp
    finally have "x = (rev m @ rev p, q)" .
    then have "rmatch ic r (rev p) (m @ q) = (rev m @ rev p, q) # rest"
      using Cons unfolding rp mq by simp
    moreover have "c # a = [] @ m @ q" "p = rev b @ []" using m0 res mm by simp_all
    ultimately show ?thesis by (intro exI[of _ "[]"]) simp
  qed
qed

lemma search_at_None:
  "search_at ic r b a = None \<Longrightarrow> a = u @ m @ q \<Longrightarrow> \<not> accepts ic r (rev b @ u) m q"
proof (induction a arbitrary: b u)
  case Nil
  have "rmatch ic r b [] = []"
  proof (cases "rmatch ic r b []")
    case (Cons x rest)
    with Nil.prems(1) show ?thesis by (simp add: search_at_hit)
  qed simp
  with Nil show ?case by (auto simp: accepts_def)
next
  case (Cons c a)
  have e: "rmatch ic r b (c # a) = []"
  proof (cases "rmatch ic r b (c # a)")
    case (Cons x rest)
    with Cons.prems(1) show ?thesis by (simp add: search_at_hit)
  qed simp
  with Cons.prems(1) have s: "search_at ic r (c # b) a = None"
    by (simp add: search_at_miss)
  show ?case
  proof (cases u)
    case Nil
    with Cons.prems(2) e show ?thesis by (auto simp: accepts_def)
  next
    case (Cons c' u')
    with Cons.prems(2) have "a = u' @ m @ q" "c' = c" by simp_all
    with Cons.IH[OF s, of u'] Cons show ?thesis by simp
  qed
qed

lemma re_search_Some:
  assumes "re_search ic r s = Some (p, m, q)"
  shows "s = p @ m @ q" and "accepts ic r p m q"
    and "\<exists>rest. rmatch ic r (rev p) (m @ q) = (rev m @ rev p, q) # rest"
    and "\<And>p' m' q'. s = p' @ m' @ q' \<Longrightarrow> accepts ic r p' m' q' \<Longrightarrow> length p \<le> length p'"
proof -
  from assms have "search_at ic r [] s = Some (p, m, q)" by (simp add: re_search_def)
  from search_at_Some[OF this] have a: "s = p @ m @ q"
    and f: "\<exists>rest. rmatch ic r (rev p) (m @ q) = (rev m @ rev p, q) # rest"
    and b: "\<forall>u' m' q'. s = u' @ m' @ q' \<and> accepts ic r u' m' q' \<longrightarrow> length p \<le> length u'"
    by auto
  show "s = p @ m @ q" by (rule a)
  show "\<exists>rest. rmatch ic r (rev p) (m @ q) = (rev m @ rev p, q) # rest" by (rule f)
  from f show "accepts ic r p m q" by (auto simp: accepts_def)
  show "\<And>p' m' q'. s = p' @ m' @ q' \<Longrightarrow> accepts ic r p' m' q' \<Longrightarrow> length p \<le> length p'"
    using b by blast
qed

lemma re_search_None_iff:
  "re_search ic r s = None \<longleftrightarrow> \<not> (\<exists>p m q. s = p @ m @ q \<and> accepts ic r p m q)"
proof
  assume "re_search ic r s = None"
  then show "\<not> (\<exists>p m q. s = p @ m @ q \<and> accepts ic r p m q)"
    using search_at_None[of ic r "[]" s] by (auto simp: re_search_def)
next
  assume n: "\<not> (\<exists>p m q. s = p @ m @ q \<and> accepts ic r p m q)"
  show "re_search ic r s = None"
  proof (cases "re_search ic r s")
    case None
    then show ?thesis .
  next
    case (Some t)
    then obtain p m q where "re_search ic r s = Some (p, m, q)" by (cases t) auto
    from re_search_Some(1,2)[OF this] n show ?thesis by blast
  qed
qed

lemma re_search_matches_iff:
  "re_search ic r s \<noteq> None \<longleftrightarrow> (\<exists>p m q. s = p @ m @ q \<and> accepts ic r p m q)"
  by (simp add: re_search_None_iff)

section \<open>The four patterns\<close>

lemma lits_ci: "list_all2 (\<lambda>x c. cmatch True (Lit c) x) u w \<longleftrightarrow> ci_eq u w"
  unfolding ci_eq_def
  by (induction u w rule: list_induct2') auto

lemma accepts_lits_ci: "accepts True (lits w) p u q \<longleftrightarrow> ci_eq u w"
  by (simp only: accepts_lits lits_ci)










lemma search_Alt:
  "(\<exists>p m q. l = p @ m @ q \<and> accepts ic (Alt r1 r2) p m q) \<longleftrightarrow>
     (\<exists>p m q. l = p @ m @ q \<and> accepts ic r1 p m q) \<or>
     (\<exists>p m q. l = p @ m @ q \<and> accepts ic r2 p m q)"
  unfolding accepts_Alt by blast

lemma search_lits:
  "(\<exists>p m q. l = p @ m @ q \<and> accepts True (lits w) p m q) \<longleftrightarrow> contains_ci l w"
  unfolding accepts_lits_ci contains_ci_def by blast


lemma xss_re_matches_iff:
  "re_search True xss_re l \<noteq> None \<longleftrightarrow>
     contains_ci l ''<script>'' \<or> contains_ci l ''alert('' \<or> contains_ci l ''onload='' \<or>
     contains_ci l ''onerror='' \<or> contains_ci l ''javascript:''"
  by (simp only: re_search_matches_iff xss_re_def search_Alt search_lits)

lemma brute_re_matches_iff:
  "re_search True brute_re l \<noteq> None \<longleftrightarrow>
     contains_ci l ''failed login'' \<or> contains_ci l ''authentication failure'' \<or>
     contains_ci l ''invalid password''"
  by (simp only: re_search_matches_iff brute_re_def search_Alt search_lits)

lemma ci_eq_refl: "ci_eq u u"
  by (simp add: ci_eq_def)

lemma contains_ci_intro: "l = p @ u @ q \<Longrightarrow> contains_ci l u"
  unfolding contains_ci_def using ci_eq_refl by blast

text \<open>The address pattern.\<close>

lemma digit_is_word: "is_digit c \<Longrightarrow> is_word c"
  by (simp add: is_digit_def is_word_def)

lemma dot_not_digit: "\<not> is_digit (CHR ''.'')"
  by (simp add: is_digit_def code_def)

lemma dot_not_word: "\<not> is_word (CHR ''.'')"
  by (simp add: is_word_def code_def)

lemma word_at_rev: "word_at (rev p) = word_before p"
  by (cases p rule: rev_cases) (simp_all add: word_at_def word_before_def)

lemma word_at_after: "word_at q = word_after q"
  by (cases q) (simp_all add: word_at_def word_after_def)

lemma digit_group_ends:
  assumes "digit_group g"
  shows "g \<noteq> []" and "is_digit (hd g)" and "is_digit (last g)"
proof -
  from assms show ne: "g \<noteq> []" by (auto simp: digit_group_def)
  from assms have all: "\<forall>x\<in>set g. is_digit x" by (simp add: digit_group_def list_all_iff)
  from ne all show "is_digit (hd g)" by simp
  from ne all show "is_digit (last g)" by simp
qed

lemma accepts_digits: "accepts False (Rep 1 3 (Chr Digit)) p u q \<longleftrightarrow> digit_group u"
proof -
  have "accepts False (Rep 1 3 (Chr Digit)) p u q \<longleftrightarrow>
      (\<exists>n. 1 \<le> n \<and> n \<le> 3 \<and> accepts False (rpow n (Chr Digit)) p u q)"
    by (rule accepts_Rep) simp
  then show ?thesis
    by (simp add: accepts_rpow_Chr digit_group_def list_all_iff)
qed

lemma accepts_group_dot:
  "accepts False (Seq (Rep 1 3 (Chr Digit)) (Chr (Lit CHR ''.''))) p u q \<longleftrightarrow>
     (\<exists>g. u = g @ ''.'' \<and> digit_group g)"
proof -
  have "accepts False (Seq (Rep 1 3 (Chr Digit)) (Chr (Lit CHR ''.''))) p u q \<longleftrightarrow>
      (\<exists>u1 u2. u = u1 @ u2 \<and> digit_group u1 \<and> (\<exists>x. u2 = [x] \<and> cmatch False (Lit CHR ''.'') x))"
    by (simp only: accepts_Seq accepts_digits accepts_Chr)
  also have "\<dots> \<longleftrightarrow> (\<exists>g. u = g @ ''.'' \<and> digit_group g)"
    by auto
  finally show ?thesis .
qed

lemma accepts_Rep_3: "accepts ic (Rep 3 3 r) p u q \<longleftrightarrow> accepts ic (Seq r (Seq r (Seq r Eps))) p u q"
proof -
  have r3: "rpow 3 r = Seq r (Seq r (Seq r Eps))"
    by (simp add: numeral_3_eq_3)
  have "accepts ic (Rep 3 3 r) p u q \<longleftrightarrow>
      (\<exists>n. 3 \<le> n \<and> n \<le> 3 \<and> accepts ic (rpow n r) p u q)"
    by (rule accepts_Rep) simp
  also have "\<dots> \<longleftrightarrow> accepts ic (rpow 3 r) p u q"
  proof
    assume "\<exists>n. 3 \<le> n \<and> n \<le> 3 \<and> accepts ic (rpow n r) p u q"
    then obtain n where "3 \<le> n" "n \<le> 3" "accepts ic (rpow n r) p u q" by blast
    moreover from this have "n = 3" by linarith
    ultimately show "accepts ic (rpow 3 r) p u q" by blast
  next
    assume "accepts ic (rpow 3 r) p u q"
    then show "\<exists>n. 3 \<le> n \<and> n \<le> 3 \<and> accepts ic (rpow n r) p u q"
      by (intro exI[of _ 3]) simp
  qed
  finally show ?thesis unfolding r3 .
qed

lemma accepts_Seq3:
  "accepts ic (Seq r (Seq r (Seq r Eps))) p u q \<longleftrightarrow>
     (\<exists>u1 u2 u3. u = u1 @ u2 @ u3 \<and> accepts ic r p u1 (u2 @ u3 @ q) \<and>
        accepts ic r (p @ u1) u2 (u3 @ q) \<and> accepts ic r (p @ u1 @ u2) u3 q)"
proof
  assume "accepts ic (Seq r (Seq r (Seq r Eps))) p u q"
  then obtain u1 t1 where 1: "u = u1 @ t1" "accepts ic r p u1 (t1 @ q)"
    "accepts ic (Seq r (Seq r Eps)) (p @ u1) t1 q"
    unfolding accepts_Seq[of ic r "Seq r (Seq r Eps)"] by blast
  from 1(3) obtain u2 t2 where 2: "t1 = u2 @ t2" "accepts ic r (p @ u1) u2 (t2 @ q)"
    "accepts ic (Seq r Eps) ((p @ u1) @ u2) t2 q"
    unfolding accepts_Seq[of ic r "Seq r Eps"] by blast
  from 2(3) obtain u3 e where 3: "t2 = u3 @ e" "accepts ic r (((p @ u1) @ u2)) u3 (e @ q)"
    "accepts ic Eps ((((p @ u1) @ u2)) @ u3) e q"
    unfolding accepts_Seq[of ic r Eps] by blast
  from 3(3) have e: "e = []" by (simp add: accepts_Eps)
  from 1 2 3 e have "u = u1 @ u2 @ u3 \<and> accepts ic r p u1 (u2 @ u3 @ q) \<and>
      accepts ic r (p @ u1) u2 (u3 @ q) \<and> accepts ic r (p @ u1 @ u2) u3 q"
    by simp
  then show "\<exists>u1 u2 u3. u = u1 @ u2 @ u3 \<and> accepts ic r p u1 (u2 @ u3 @ q) \<and>
      accepts ic r (p @ u1) u2 (u3 @ q) \<and> accepts ic r (p @ u1 @ u2) u3 q"
    by blast
next
  assume "\<exists>u1 u2 u3. u = u1 @ u2 @ u3 \<and> accepts ic r p u1 (u2 @ u3 @ q) \<and>
      accepts ic r (p @ u1) u2 (u3 @ q) \<and> accepts ic r (p @ u1 @ u2) u3 q"
  then obtain u1 u2 u3 where h: "u = u1 @ u2 @ u3" "accepts ic r p u1 (u2 @ u3 @ q)"
    "accepts ic r (p @ u1) u2 (u3 @ q)" "accepts ic r (p @ u1 @ u2) u3 q"
    by blast
  have "accepts ic Eps (p @ u1 @ u2 @ u3) [] q" by (simp add: accepts_Eps)
  with h(4) have "accepts ic (Seq r Eps) (p @ u1 @ u2) u3 q"
    unfolding accepts_Seq[of ic r Eps] by (intro exI[of _ u3] exI[of _ "[]"]) simp
  with h(3) have "accepts ic (Seq r (Seq r Eps)) (p @ u1) (u2 @ u3) q"
    unfolding accepts_Seq[of ic r "Seq r Eps"] by (intro exI[of _ u2] exI[of _ u3]) simp
  with h(2) have "accepts ic (Seq r (Seq r (Seq r Eps))) p (u1 @ u2 @ u3) q"
    unfolding accepts_Seq[of ic r "Seq r (Seq r Eps)"]
    by (intro exI[of _ u1] exI[of _ "u2 @ u3"]) simp
  with h(1) show "accepts ic (Seq r (Seq r (Seq r Eps))) p u q" by simp
qed

lemma accepts_three_groups:
  "accepts False (Rep 3 3 (Seq (Rep 1 3 (Chr Digit)) (Chr (Lit CHR ''.'')))) p u q \<longleftrightarrow>
     (\<exists>g1 g2 g3. u = g1 @ ''.'' @ g2 @ ''.'' @ g3 @ ''.'' \<and>
        digit_group g1 \<and> digit_group g2 \<and> digit_group g3)"
proof
  assume "accepts False (Rep 3 3 (Seq (Rep 1 3 (Chr Digit)) (Chr (Lit CHR ''.'')))) p u q"
  then have "\<exists>u1 u2 u3. u = u1 @ u2 @ u3 \<and> (\<exists>g. u1 = g @ ''.'' \<and> digit_group g) \<and>
      (\<exists>g. u2 = g @ ''.'' \<and> digit_group g) \<and> (\<exists>g. u3 = g @ ''.'' \<and> digit_group g)"
    by (simp only: accepts_Rep_3 accepts_Seq3 accepts_group_dot)
  then obtain u1 u2 u3 g1 g2 g3 where "u = u1 @ u2 @ u3"
    "u1 = g1 @ ''.''" "digit_group g1" "u2 = g2 @ ''.''" "digit_group g2"
    "u3 = g3 @ ''.''" "digit_group g3"
    by blast
  then have "u = g1 @ ''.'' @ g2 @ ''.'' @ g3 @ ''.'' \<and>
      digit_group g1 \<and> digit_group g2 \<and> digit_group g3" by simp
  then show "\<exists>g1 g2 g3. u = g1 @ ''.'' @ g2 @ ''.'' @ g3 @ ''.'' \<and>
      digit_group g1 \<and> digit_group g2 \<and> digit_group g3" by blast
next
  assume "\<exists>g1 g2 g3. u = g1 @ ''.'' @ g2 @ ''.'' @ g3 @ ''.'' \<and>
      digit_group g1 \<and> digit_group g2 \<and> digit_group g3"
  then obtain g1 g2 g3 where u: "u = g1 @ ''.'' @ g2 @ ''.'' @ g3 @ ''.''"
    and g: "digit_group g1" "digit_group g2" "digit_group g3" by blast
  have "u = (g1 @ ''.'') @ (g2 @ ''.'') @ (g3 @ ''.'')" using u by simp
  with g have "\<exists>u1 u2 u3. u = u1 @ u2 @ u3 \<and> (\<exists>g. u1 = g @ ''.'' \<and> digit_group g) \<and>
      (\<exists>g. u2 = g @ ''.'' \<and> digit_group g) \<and> (\<exists>g. u3 = g @ ''.'' \<and> digit_group g)"
    by blast
  then show "accepts False (Rep 3 3 (Seq (Rep 1 3 (Chr Digit)) (Chr (Lit CHR ''.'')))) p u q"
    by (simp only: accepts_Rep_3 accepts_Seq3 accepts_group_dot)
qed

lemma ipv4_shaped_ends:
  assumes "ipv4_shaped m"
  shows "m \<noteq> []" and "is_word (hd m)" and "is_word (last m)"
proof -
  from assms obtain g1 g2 g3 g4 where m: "m = g1 @ ''.'' @ g2 @ ''.'' @ g3 @ ''.'' @ g4"
    and g: "digit_group g1" "digit_group g4"
    unfolding ipv4_shaped_def by blast
  from digit_group_ends[OF g(1)] m show "m \<noteq> []" by simp
  from digit_group_ends[OF g(1)] m have "hd m = hd g1" by simp
  with digit_group_ends(2)[OF g(1)] show "is_word (hd m)" by (simp add: digit_is_word)
  from digit_group_ends[OF g(2)] m have "last m = last g4" by simp
  with digit_group_ends(3)[OF g(2)] show "is_word (last m)" by (simp add: digit_is_word)
qed

lemma accepts_ip_re:
  "accepts False ip_re p m q \<longleftrightarrow> ipv4_shaped m \<and> \<not> word_before p \<and> \<not> word_after q"
proof -
  have shape: "accepts False ip_re p m q \<longleftrightarrow>
      ipv4_shaped m \<and> at_boundary (rev p) (m @ q) \<and> at_boundary (rev (p @ m)) q"
  proof
    assume acc: "accepts False ip_re p m q"
    let ?GD = "Seq (Rep 1 3 (Chr Digit)) (Chr (Lit CHR ''.''))"
    let ?D = "Rep 1 3 (Chr Digit)"
    from acc obtain e1 t where 1: "m = e1 @ t" "accepts False WordB p e1 (t @ q)"
      "accepts False (Seq (Rep 3 3 ?GD) (Seq ?D WordB)) (p @ e1) t q"
      unfolding ip_re_def accepts_Seq[of False WordB] by blast
    from 1(2) have e1: "e1 = []" "at_boundary (rev p) (t @ q)"
      by (simp_all add: accepts_WordB)
    from 1(3) obtain u t2 where 2: "t = u @ t2" "accepts False (Rep 3 3 ?GD) (p @ e1) u (t2 @ q)"
      "accepts False (Seq ?D WordB) ((p @ e1) @ u) t2 q"
      unfolding accepts_Seq[of False "Rep 3 3 ?GD"] by blast
    from 2(3) obtain v e2 where 3: "t2 = v @ e2" "accepts False ?D ((p @ e1) @ u) v (e2 @ q)"
      "accepts False WordB (((p @ e1) @ u) @ v) e2 q"
      unfolding accepts_Seq[of False ?D WordB] by blast
    from 3(3) have e2: "e2 = []" "at_boundary (rev (((p @ e1) @ u) @ v)) q"
      by (simp_all add: accepts_WordB)
    from 3(2) have dv: "digit_group v" by (simp only: accepts_digits)
    from 1(1) 2(1) 3(1) e1(1) e2(1) have mu: "m = u @ v" "t = m" "t2 = v" by simp_all
    have h: "m = u @ v" "at_boundary (rev p) (m @ q)" "at_boundary (rev (p @ m)) q"
      "accepts False (Rep 3 3 ?GD) p u (v @ q)" "digit_group v"
      using mu e1 e2 2(2) dv by simp_all
    from h(4) obtain g1 g2 g3 where "u = g1 @ ''.'' @ g2 @ ''.'' @ g3 @ ''.''"
      "digit_group g1" "digit_group g2" "digit_group g3"
      unfolding accepts_three_groups by blast
    with h(1,5) have "m = g1 @ ''.'' @ g2 @ ''.'' @ g3 @ ''.'' @ v \<and>
        digit_group g1 \<and> digit_group g2 \<and> digit_group g3 \<and> digit_group v" by simp
    then have "ipv4_shaped m" unfolding ipv4_shaped_def by blast
    with h(2,3) show "ipv4_shaped m \<and> at_boundary (rev p) (m @ q) \<and> at_boundary (rev (p @ m)) q"
      by simp
  next
    assume a: "ipv4_shaped m \<and> at_boundary (rev p) (m @ q) \<and> at_boundary (rev (p @ m)) q"
    then obtain g1 g2 g3 g4 where m: "m = g1 @ ''.'' @ g2 @ ''.'' @ g3 @ ''.'' @ g4"
      and g: "digit_group g1" "digit_group g2" "digit_group g3" "digit_group g4"
      unfolding ipv4_shaped_def by blast
    define u where "u = g1 @ ''.'' @ g2 @ ''.'' @ g3 @ ''.''"
    have mu: "m = u @ g4" using m by (simp add: u_def)
    have three: "accepts False (Rep 3 3 (Seq (Rep 1 3 (Chr Digit)) (Chr (Lit CHR ''.'')))) p u (g4 @ q)"
      unfolding accepts_three_groups using g(1,2,3) u_def by blast
    have last: "accepts False (Seq (Rep 1 3 (Chr Digit)) WordB) (p @ u) g4 q"
      unfolding accepts_Seq accepts_digits accepts_WordB
      using g(4) a mu by (intro exI[of _ g4] exI[of _ "[]"]) simp
    have body: "accepts False
        (Seq (Rep 3 3 (Seq (Rep 1 3 (Chr Digit)) (Chr (Lit CHR ''.''))))
          (Seq (Rep 1 3 (Chr Digit)) WordB)) p m q"
      unfolding accepts_Seq[of _ "Rep 3 3 _"]
      using three last mu by blast
    have "accepts False WordB p [] (m @ q)"
      unfolding accepts_WordB using a by simp
    with body show "accepts False ip_re p m q"
      unfolding ip_re_def accepts_Seq[of _ WordB]
      by (intro exI[of _ "[]"] exI[of _ m]) simp
  qed
  have "at_boundary (rev p) (m @ q) \<longleftrightarrow> \<not> word_before p"
    and "at_boundary (rev (p @ m)) q \<longleftrightarrow> \<not> word_after q" if s: "ipv4_shaped m"
  proof -
    from ipv4_shaped_ends[OF s] have "word_at (m @ q)"
      by (cases m) (simp_all add: word_at_def)
    then show "at_boundary (rev p) (m @ q) \<longleftrightarrow> \<not> word_before p"
      by (simp add: at_boundary_def word_at_rev)
    from ipv4_shaped_ends[OF s] have "word_before (p @ m)"
      by (simp add: word_before_def)
    then have "word_at (rev (p @ m))" by (simp only: word_at_rev)
    then show "at_boundary (rev (p @ m)) q \<longleftrightarrow> \<not> word_after q"
      unfolding at_boundary_def word_at_after[of q] by blast
  qed
  with shape show ?thesis by blast
qed

lemma digit_group_chars: "digit_group g \<Longrightarrow> \<forall>c\<in>set g. is_digit c"
  by (simp add: digit_group_def list_all_iff)

lemma digit_group_no_dot: "digit_group g \<Longrightarrow> filter (\<lambda>c. c = CHR ''.'') g = []"
  using dot_not_digit by (auto simp: filter_empty_conv dest: digit_group_chars)

lemma shaped_chars: "ipv4_shaped m \<Longrightarrow> \<forall>c\<in>set m. is_digit c \<or> c = CHR ''.''"
  unfolding ipv4_shaped_def using digit_group_chars by fastforce

lemma shaped_dots: "ipv4_shaped m \<Longrightarrow> length (filter (\<lambda>c. c = CHR ''.'') m) = 3"
  unfolding ipv4_shaped_def by (auto simp: digit_group_no_dot)

lemma shaped_no_extension:
  assumes "ipv4_shaped m" and "ipv4_shaped (m @ x)" and "\<not> word_after (x @ q)"
  shows "x = []"
proof (rule ccontr)
  assume ne: "x \<noteq> []"
  then have hx: "hd x \<in> set (m @ x)" by simp
  from assms(3) ne have "\<not> is_word (hd x)" by (simp add: word_after_def)
  then have "\<not> is_digit (hd x)" using digit_is_word by blast
  with shaped_chars[OF assms(2)] hx have "hd x = CHR ''.''" by blast
  with ne have "length (filter (\<lambda>c. c = CHR ''.'') x) \<ge> 1"
    by (cases x) simp_all
  moreover have "length (filter (\<lambda>c. c = CHR ''.'') (m @ x)) =
      length (filter (\<lambda>c. c = CHR ''.'') m) + length (filter (\<lambda>c. c = CHR ''.'') x)"
    by simp
  ultimately show False
    using shaped_dots[OF assms(1)] shaped_dots[OF assms(2)] by linarith
qed

lemma ip_occurrence_unique:
  assumes "ip_occurrence l p m q" and "ip_occurrence l p m' q'"
  shows "m = m'" and "q = q'"
proof -
  from assms have e: "m @ q = m' @ q'" and s: "ipv4_shaped m" "ipv4_shaped m'"
    and w: "\<not> word_after q" "\<not> word_after q'"
    by (auto simp: ip_occurrence_def)
  from e consider x where "m = m' @ x" "x @ q = q'" | x where "m @ x = m'" "q = x @ q'"
    by (auto simp: append_eq_append_conv2)
  then show "m = m'"
  proof cases
    case 1
    from s(2) s(1) w(2) 1 have "x = []" by (intro shaped_no_extension[of m' x q]) simp_all
    with 1 show ?thesis by simp
  next
    case 2
    from s(1) s(2) w(1) 2 have "x = []" by (intro shaped_no_extension[of m x q']) simp_all
    with 2 show ?thesis by simp
  qed
  with e show "q = q'" by simp
qed

lemma re_search_ip_Some:
  "re_search False ip_re l = Some (p, m, q) \<Longrightarrow>
     ip_occurrence l p m q \<and> (\<forall>p' m' q'. ip_occurrence l p' m' q' \<longrightarrow> length p \<le> length p')"
  using re_search_Some(1,2,4)[of False ip_re l p m q]
  unfolding ip_occurrence_def accepts_ip_re by blast

lemma extract_ip_None_iff:
  "extract_ip l = None \<longleftrightarrow> \<not> (\<exists>p m q. ip_occurrence l p m q)"
proof -
  have "extract_ip l = None \<longleftrightarrow> re_search False ip_re l = None"
    by (simp add: extract_ip_def split: option.splits)
  then show ?thesis
    unfolding re_search_None_iff accepts_ip_re ip_occurrence_def by blast
qed

lemma extract_ip_Some_iff:
  "extract_ip l = Some m \<longleftrightarrow> first_ip_occurrence l m"
proof
  assume "extract_ip l = Some m"
  then obtain p q where "re_search False ip_re l = Some (p, m, q)"
    by (auto simp: extract_ip_def split: option.splits)
  from re_search_ip_Some[OF this] show "first_ip_occurrence l m"
    unfolding first_ip_occurrence_def by blast
next
  assume "first_ip_occurrence l m"
  then obtain p q where o: "ip_occurrence l p m q"
    and least: "\<forall>p' m' q'. ip_occurrence l p' m' q' \<longrightarrow> length p \<le> length p'"
    unfolding first_ip_occurrence_def by blast
  from o have "extract_ip l \<noteq> None" unfolding extract_ip_None_iff by blast
  then obtain p0 m0 q0 where r: "re_search False ip_re l = Some (p0, m0, q0)"
    by (auto simp: extract_ip_def split: option.splits)
  from re_search_ip_Some[OF r] have o0: "ip_occurrence l p0 m0 q0"
    and least0: "\<forall>p' m' q'. ip_occurrence l p' m' q' \<longrightarrow> length p0 \<le> length p'"
    by blast+
  from o o0 least least0 have len: "length p = length p0" by (meson le_antisym)
  from o o0 have "p @ m @ q = p0 @ m0 @ q0" by (simp add: ip_occurrence_def)
  with len have "p = p0" by simp
  with o0 have "ip_occurrence l p m0 q0" by simp
  from ip_occurrence_unique(1)[OF o this] have "m = m0" .
  with r show "extract_ip l = Some m" by (simp add: extract_ip_def)
qed

lemma extract_ip_nonempty: "extract_ip l = Some m \<Longrightarrow> m \<noteq> []"
  unfolding extract_ip_Some_iff first_ip_occurrence_def ip_occurrence_def
  using ipv4_shaped_ends(1) by blast

section \<open>The effect of one line\<close>

lemma map_of_dd_incr:
  "map_of (dd_incr d k) = (map_of d)(k \<mapsto> freq d k + 1)"
  by (auto simp: dd_incr_def dd_getitem_def freq_def update_conv' split: option.splits)

lemma dd_getitem_present:
  "map_of d k = Some v \<Longrightarrow> dd_getitem d k = (v, d)"
  by (simp add: dd_getitem_def)

lemma dd_getitem_incr:
  "dd_getitem (dd_incr d k) k = (freq d k + 1, dd_incr d k)"
  by (simp add: dd_getitem_present map_of_dd_incr)

lemma keys_dd_incr: "fst ` set (dd_incr d k) = insert k (fst ` set d)"
  by (auto simp: dd_incr_def dd_getitem_def dom_update split: option.splits)

lemma distinct_dd_incr: "distinct (map fst d) \<Longrightarrow> distinct (map fst (dd_incr d k))"
  by (auto simp: dd_incr_def dd_getitem_def distinct_update split: option.splits)

lemma al_total:
  "total_attacks (stats (analyze_line s l n)) = total_attacks (stats s)"
  by (simp add: analyze_line_def Let_def count_ip_def check_sql_injection_def check_xss_def
      check_ddos_def check_brute_force_def split: option.splits prod.splits)

lemma al_sql_count:
  "sql_injection_count (stats (analyze_line s l n)) =
     sql_injection_count (stats s) + (if re_search True sql_re l \<noteq> None then 1 else 0)"
  by (simp add: analyze_line_def Let_def count_ip_def check_sql_injection_def check_xss_def
      check_ddos_def check_brute_force_def split: option.splits prod.splits)

lemma al_sql_list:
  "sql_injection (attacks (analyze_line s l n)) =
     sql_injection (attacks s) @
       (if re_search True sql_re l \<noteq> None
        then [\<lparr>ev_line = n, ev_ip = extract_ip l, ev_content = strip l\<rparr>] else [])"
  by (simp add: analyze_line_def Let_def count_ip_def check_sql_injection_def check_xss_def
      check_ddos_def check_brute_force_def split: option.splits prod.splits)

lemma al_xss_count:
  "xss_count (stats (analyze_line s l n)) =
     xss_count (stats s) + (if re_search True xss_re l \<noteq> None then 1 else 0)"
  by (simp add: analyze_line_def Let_def count_ip_def check_sql_injection_def check_xss_def
      check_ddos_def check_brute_force_def split: option.splits prod.splits)

lemma al_xss_list:
  "xss (attacks (analyze_line s l n)) =
     xss (attacks s) @
       (if re_search True xss_re l \<noteq> None
        then [\<lparr>ev_line = n, ev_ip = extract_ip l, ev_content = strip l\<rparr>] else [])"
  by (simp add: analyze_line_def Let_def count_ip_def check_sql_injection_def check_xss_def
      check_ddos_def check_brute_force_def split: option.splits prod.splits)

lemma al_brute_count:
  "brute_force_count (stats (analyze_line s l n)) =
     brute_force_count (stats s) + (if re_search True brute_re l \<noteq> None then 1 else 0)"
  by (simp add: analyze_line_def Let_def count_ip_def check_sql_injection_def check_xss_def
      check_ddos_def check_brute_force_def split: option.splits prod.splits)

lemma al_brute_list:
  "brute_force (attacks (analyze_line s l n)) =
     brute_force (attacks s) @
       (if re_search True brute_re l \<noteq> None
        then [\<lparr>ev_line = n, ev_ip = extract_ip l, ev_content = strip l\<rparr>] else [])"
  by (simp add: analyze_line_def Let_def count_ip_def check_sql_injection_def check_xss_def
      check_ddos_def check_brute_force_def split: option.splits prod.splits)

lemma al_unique:
  "unique_ips (stats (analyze_line s l n)) =
     (case extract_ip l of None \<Rightarrow> unique_ips (stats s)
      | Some a \<Rightarrow> if a = [] then unique_ips (stats s) else insert a (unique_ips (stats s)))"
  by (simp add: analyze_line_def Let_def count_ip_def check_sql_injection_def check_xss_def
      check_ddos_def check_brute_force_def dd_getitem_incr split: option.splits prod.splits)

lemma al_freq:
  "ip_frequency (analyze_line s l n) =
     (case extract_ip l of None \<Rightarrow> ip_frequency s
      | Some a \<Rightarrow> if a = [] then ip_frequency s else dd_incr (ip_frequency s) a)"
  by (simp add: analyze_line_def Let_def count_ip_def check_sql_injection_def check_xss_def
      check_ddos_def check_brute_force_def dd_getitem_incr split: option.splits prod.splits)

lemma al_ddos_list:
  "ddos (attacks (analyze_line s l n)) = ddos (attacks s) @ ddos_new s l n"
  by (simp add: analyze_line_def Let_def count_ip_def check_sql_injection_def check_xss_def
      check_ddos_def check_brute_force_def dd_getitem_incr ddos_new_def split: option.splits prod.splits)

lemma al_ddos_count:
  "ddos_count (stats (analyze_line s l n)) = ddos_count (stats s) + int (length (ddos_new s l n))"
  by (simp add: analyze_line_def Let_def count_ip_def check_sql_injection_def check_xss_def
      check_ddos_def check_brute_force_def dd_getitem_incr ddos_new_def split: option.splits prod.splits)

lemma analyze_lines_append:
  "analyze_lines s n (f @ [l]) =
     analyze_line (analyze_lines s n f) l (n + int (length f) + 1)"
  by (induction f arbitrary: s n) (simp_all add: algebra_simps)

lemma reachable_analyze_lines: "reachable s \<Longrightarrow> reachable (analyze_lines s n f)"
  by (induction f arbitrary: s n) (simp_all add: reach_line)

lemma analyze_lines_invariant:
  assumes "P s" and "\<And>s l n. P s \<Longrightarrow> P (analyze_line s l n)"
  shows "P (analyze_lines s n f)"
  using assms(1) by (induction f arbitrary: s n) (simp_all add: assms(2))

lemma reachable_invariant:
  assumes "reachable s" and "P LogAnalyzer"
    and step: "\<And>s l n. P s \<Longrightarrow> P (analyze_line s l n)"
    and total: "\<And>s t. P s \<Longrightarrow> P (s\<lparr>stats := (stats s)\<lparr>total_attacks := t\<rparr>\<rparr>)"
  shows "P s"
  using assms(1)
proof (induction rule: reachable.induct)
  case reach_new
  show ?case by (rule assms(2))
next
  case (reach_line s l n)
  then show ?case by (simp add: step)
next
  case (reach_file s f)
  have "P (analyze_lines s 0 f)"
    using reach_file.IH step by (rule analyze_lines_invariant)
  then show ?case by (simp add: analyze_file_def Let_def total)
qed

lemma counts_are_lengths:
  assumes "reachable s"
  shows "sql_injection_count (stats s) = int (length (sql_injection (attacks s))) \<and>
         xss_count (stats s) = int (length (xss (attacks s))) \<and>
         ddos_count (stats s) = int (length (ddos (attacks s))) \<and>
         brute_force_count (stats s) = int (length (brute_force (attacks s)))"
  using assms
proof (rule reachable_invariant)
  show "sql_injection_count (stats LogAnalyzer) = int (length (sql_injection (attacks LogAnalyzer))) \<and>
        xss_count (stats LogAnalyzer) = int (length (xss (attacks LogAnalyzer))) \<and>
        ddos_count (stats LogAnalyzer) = int (length (ddos (attacks LogAnalyzer))) \<and>
        brute_force_count (stats LogAnalyzer) = int (length (brute_force (attacks LogAnalyzer)))"
    by (simp add: LogAnalyzer_def)
qed (simp_all add: al_sql_count al_sql_list al_xss_count al_xss_list al_ddos_count al_ddos_list
      al_brute_count al_brute_list)

subsection \<open>The frequency table after one line\<close>

lemma freq_dd_incr: "freq (dd_incr d k) a = (if a = k then freq d k + 1 else freq d a)"
  by (simp add: freq_def map_of_dd_incr)

lemma al_freq_Some:
  assumes "extract_ip l = Some m"
  shows "ip_frequency (analyze_line s l n) = dd_incr (ip_frequency s) m"
  using assms extract_ip_nonempty[OF assms] by (simp add: al_freq)

lemma al_freq_None: "extract_ip l = None \<Longrightarrow> ip_frequency (analyze_line s l n) = ip_frequency s"
  by (simp add: al_freq)

lemma shaped_example: "ipv4_shaped ''234.56.7.8''"
proof -
  have "digit_group ''234''" "digit_group ''56''" "digit_group ''7''" "digit_group ''8''"
    by (simp_all add: digit_group_def is_digit_def code_def)
  moreover have "''234.56.7.8'' = ''234'' @ ''.'' @ ''56'' @ ''.'' @ ''7'' @ ''.'' @ ''8''"
    by simp
  ultimately show ?thesis unfolding ipv4_shaped_def by blast
qed

subsection \<open>The set of addresses and the keys of the table\<close>

lemma unique_keys_inv:
  assumes "reachable s"
  shows "unique_ips (stats s) = fst ` set (ip_frequency s) \<and> distinct (map fst (ip_frequency s))"
  using assms
proof (rule reachable_invariant)
  show "unique_ips (stats LogAnalyzer) = fst ` set (ip_frequency LogAnalyzer) \<and>
        distinct (map fst (ip_frequency LogAnalyzer))"
    by (simp add: LogAnalyzer_def)
next
  fix s :: analyzer and l n
  assume "unique_ips (stats s) = fst ` set (ip_frequency s) \<and> distinct (map fst (ip_frequency s))"
  then show "unique_ips (stats (analyze_line s l n)) = fst ` set (ip_frequency (analyze_line s l n)) \<and>
        distinct (map fst (ip_frequency (analyze_line s l n)))"
    by (cases "extract_ip l") (simp_all add: al_unique al_freq keys_dd_incr distinct_dd_incr)
qed simp

lemma unique_analyze_lines:
  "unique_ips (stats (analyze_lines s n f)) =
     unique_ips (stats s) \<union> {a. \<exists>l\<in>set f. extract_ip l = Some a}"
proof (induction f arbitrary: s n)
  case Nil
  show ?case by simp
next
  case (Cons l f)
  have "unique_ips (stats (analyze_line s l (n + 1))) =
          unique_ips (stats s) \<union> {a. extract_ip l = Some a}"
    using extract_ip_nonempty[of l] by (cases "extract_ip l") (auto simp: al_unique)
  then show ?case by (auto simp: Cons.IH)
qed

lemma analyze_file_fields:
  "unique_ips (stats (fst (analyze_file s f))) = unique_ips (stats (analyze_lines s 0 f))"
  "ip_frequency (fst (analyze_file s f)) = ip_frequency (analyze_lines s 0 f)"
  "attacks (fst (analyze_file s f)) = attacks (analyze_lines s 0 f)"
  "r_unique_ips (r_stats (snd (analyze_file s f))) =
     int (card (unique_ips (stats (analyze_lines s 0 f))))"
  "r_ip_frequency (snd (analyze_file s f)) = ip_frequency (analyze_lines s 0 f)"
  "r_ddos (snd (analyze_file s f)) = ddos (attacks (analyze_lines s 0 f))"
  by (simp_all add: analyze_file_def Let_def)

subsection \<open>The list of DDoS events\<close>

lemma freq_mono: "freq (ip_frequency s) a \<le> freq (ip_frequency (analyze_line s l n)) a"
  by (cases "extract_ip l") (simp_all add: al_freq_None al_freq_Some freq_dd_incr)

lemma ddos_new_latched:
  assumes "\<forall>a. list_ex (\<lambda>e. dd_ip e = Some a) (ddos (attacks s)) \<longleftrightarrow> 100 < freq (ip_frequency s) a"
  shows "ddos_new s l n =
    (case extract_ip l of None \<Rightarrow> []
     | Some a \<Rightarrow> if freq (ip_frequency s) a = 100
         then [\<lparr>dd_line = n, dd_ip = Some a, dd_count = 101\<rparr>] else [])"
  using assms extract_ip_nonempty[of l] by (auto simp: ddos_new_def split: option.splits)

lemma ddos_inv_step:
  fixes s :: analyzer
  assumes i1: "\<forall>a. list_ex (\<lambda>e. dd_ip e = Some a) (ddos (attacks s)) \<longleftrightarrow> 100 < freq (ip_frequency s) a"
    and i2: "\<forall>a. length (filter (\<lambda>e. dd_ip e = Some a) (ddos (attacks s))) \<le> 1"
    and i3: "\<forall>e\<in>set (ddos (attacks s)). dd_ip e \<noteq> None \<and> dd_count e = 101"
  shows "(\<forall>a. list_ex (\<lambda>e. dd_ip e = Some a) (ddos (attacks (analyze_line s l n))) \<longleftrightarrow>
             100 < freq (ip_frequency (analyze_line s l n)) a) \<and>
         (\<forall>a. length (filter (\<lambda>e. dd_ip e = Some a) (ddos (attacks (analyze_line s l n)))) \<le> 1) \<and>
         (\<forall>e\<in>set (ddos (attacks (analyze_line s l n))). dd_ip e \<noteq> None \<and> dd_count e = 101)"
proof (cases "extract_ip l")
  case None
  then show ?thesis
    using i1 i2 i3 by (simp add: al_ddos_list ddos_new_latched[OF i1] al_freq_None)
next
  case (Some m)
  have e: "filter (\<lambda>e. dd_ip e = Some m) (ddos (attacks s)) = []"
    if "freq (ip_frequency s) m = 100"
  proof -
    from that i1 have "\<not> list_ex (\<lambda>e. dd_ip e = Some m) (ddos (attacks s))" by simp
    then show ?thesis by (simp add: list_ex_iff filter_empty_conv)
  qed
  show ?thesis
    using i1 i2 i3 e
    by (auto simp: al_ddos_list ddos_new_latched[OF i1] Some al_freq_Some[OF Some] freq_dd_incr)
qed

lemma ddos_inv:
  assumes "reachable s"
  shows "(\<forall>a. list_ex (\<lambda>e. dd_ip e = Some a) (ddos (attacks s)) \<longleftrightarrow> 100 < freq (ip_frequency s) a) \<and>
         (\<forall>a. length (filter (\<lambda>e. dd_ip e = Some a) (ddos (attacks s))) \<le> 1) \<and>
         (\<forall>e\<in>set (ddos (attacks s)). dd_ip e \<noteq> None \<and> dd_count e = 101)"
  using assms
proof (rule reachable_invariant)
  show "(\<forall>a. list_ex (\<lambda>e. dd_ip e = Some a) (ddos (attacks LogAnalyzer)) \<longleftrightarrow>
            100 < freq (ip_frequency LogAnalyzer) a) \<and>
        (\<forall>a. length (filter (\<lambda>e. dd_ip e = Some a) (ddos (attacks LogAnalyzer))) \<le> 1) \<and>
        (\<forall>e\<in>set (ddos (attacks LogAnalyzer)). dd_ip e \<noteq> None \<and> dd_count e = 101)"
    by (simp add: LogAnalyzer_def freq_def)
next
  fix s :: analyzer and l n
  assume "(\<forall>a. list_ex (\<lambda>e. dd_ip e = Some a) (ddos (attacks s)) \<longleftrightarrow> 100 < freq (ip_frequency s) a) \<and>
         (\<forall>a. length (filter (\<lambda>e. dd_ip e = Some a) (ddos (attacks s))) \<le> 1) \<and>
         (\<forall>e\<in>set (ddos (attacks s)). dd_ip e \<noteq> None \<and> dd_count e = 101)"
  then show "(\<forall>a. list_ex (\<lambda>e. dd_ip e = Some a) (ddos (attacks (analyze_line s l n))) \<longleftrightarrow>
             100 < freq (ip_frequency (analyze_line s l n)) a) \<and>
         (\<forall>a. length (filter (\<lambda>e. dd_ip e = Some a) (ddos (attacks (analyze_line s l n)))) \<le> 1) \<and>
         (\<forall>e\<in>set (ddos (attacks (analyze_line s l n))). dd_ip e \<noteq> None \<and> dd_count e = 101)"
    using ddos_inv_step[of s l n] by blast
qed simp

lemma ddos_step:
  assumes "reachable s"
  shows "ddos (attacks (analyze_line s l n)) = ddos (attacks s) @
      (case extract_ip l of None \<Rightarrow> []
       | Some b \<Rightarrow>
           if \<not> 100 < freq (ip_frequency s) b \<and> 100 < freq (ip_frequency (analyze_line s l n)) b
           then [\<lparr>dd_line = n, dd_ip = Some b,
                  dd_count = freq (ip_frequency (analyze_line s l n)) b\<rparr>]
           else [])"
proof -
  from ddos_inv[OF assms]
  have i1: "\<forall>a. list_ex (\<lambda>e. dd_ip e = Some a) (ddos (attacks s)) \<longleftrightarrow> 100 < freq (ip_frequency s) a"
    by blast
  show ?thesis
  proof (cases "extract_ip l")
    case None
    then show ?thesis by (simp add: al_ddos_list ddos_new_latched[OF i1])
  next
    case (Some b)
    then show ?thesis
      by (simp add: al_ddos_list ddos_new_latched[OF i1] al_freq_Some[OF Some] freq_dd_incr)
  qed
qed

lemma analyze_lines_replicate_Suc:
  "analyze_lines s n (replicate (Suc k) l) =
     analyze_line (analyze_lines s n (replicate k l)) l (n + int k + 1)"
  using analyze_lines_append[of s n "replicate k l" l] by (simp add: replicate_append_same)

lemma freq_replicate:
  assumes "extract_ip l = Some a"
  shows "freq (ip_frequency (analyze_lines s n (replicate k l))) a = freq (ip_frequency s) a + int k"
  by (induction k arbitrary: s n) (simp_all add: al_freq_Some[OF assms] freq_dd_incr)

lemma ddos_replicate_below:
  assumes "extract_ip l = Some a" and "freq (ip_frequency s) a + int k \<le> 100"
  shows "ddos (attacks (analyze_lines s n (replicate k l))) = ddos (attacks s)"
  using assms(2)
proof (induction k arbitrary: s n)
  case 0
  show ?case by simp
next
  case (Suc k)
  have "ddos_new s l (n + 1) = []"
    using Suc.prems by (simp add: ddos_new_def assms(1))
  then have "ddos (attacks (analyze_line s l (n + 1))) = ddos (attacks s)"
    by (simp add: al_ddos_list)
  moreover have "freq (ip_frequency (analyze_line s l (n + 1))) a + int k \<le> 100"
    using Suc.prems by (simp add: al_freq_Some[OF assms(1)] freq_dd_incr)
  ultimately show ?case using Suc.IH[of "analyze_line s l (n + 1)" "n + 1"] by simp
qed

subsection \<open>Instances in the store\<close>

section \<open>Evaluated lines\<close>

text \<open>The line of the scenario \<^verbatim>\<open>admin' OR 1=1 -- \<close>, evaluated.\<close>

lemma quote_line_eval:
  "re_search True sql_re ''admin' OR 1=1 -- '' = Some (''admin' OR 1=1 '', ''-- '', [])"
  "re_search True xss_re ''admin' OR 1=1 -- '' = None"
  "re_search True brute_re ''admin' OR 1=1 -- '' = None"
  "extract_ip ''admin' OR 1=1 -- '' = None"
  "strip ''admin' OR 1=1 -- '' = ''admin' OR 1=1 --''"
  by code_simp+

lemma ddos_new_no_ip: "extract_ip l = None \<Longrightarrow> ddos_new s l n = []"
  by (simp add: ddos_new_def)

text \<open>Two lines with digits and dots, evaluated.\<close>

lemma embedded_line_eval:
  "extract_ip ''1234.56.7.8'' = None"
  by code_simp

lemma address_line_eval:
  "extract_ip ''1.2.3.4'' = Some ''1.2.3.4''"
  "re_search True sql_re ''1.2.3.4'' = None"
  "re_search True xss_re ''1.2.3.4'' = None"
  "re_search True brute_re ''1.2.3.4'' = None"
  by code_simp+

lemma two_lines_table:
  "ip_frequency (analyze_lines LogAnalyzer 0 [''1.2.3.4'', ''1.2.3.4'']) = [(''1.2.3.4'', 2)]"
  by (simp add: al_freq address_line_eval)
    (simp add: LogAnalyzer_def dd_incr_def dd_getitem_def)
section \<open>The claims\<close>


text \<open>
  C6. In every state an analyzer can reach, each of the four category counters equals the
  length of that category's event list: a counter is incremented exactly when an entry is
  appended to its list.
\<close>

theorem counts_equal_list_lengths:
  "reachable s \<Longrightarrow>
     sql_injection_count (stats s) = int (length (sql_injection (attacks s))) \<and>
     xss_count (stats s) = int (length (xss (attacks s))) \<and>
     ddos_count (stats s) = int (length (ddos (attacks s))) \<and>
     brute_force_count (stats s) = int (length (brute_force (attacks s)))"
  by (rule counts_are_lengths)

theorem counts_equal_list_lengths_witness:
  "reachable (analyze_line LogAnalyzer ''admin' OR 1=1 -- '' 1) \<and>
   sql_injection_count (stats (analyze_line LogAnalyzer ''admin' OR 1=1 -- '' 1)) = 1 \<and>
   length (sql_injection (attacks (analyze_line LogAnalyzer ''admin' OR 1=1 -- '' 1))) = 1 \<and>
   xss_count (stats (analyze_line LogAnalyzer ''admin' OR 1=1 -- '' 1)) = 0 \<and>
   length (xss (attacks (analyze_line LogAnalyzer ''admin' OR 1=1 -- '' 1))) = 0"
proof -
  have h: "reachable (analyze_line LogAnalyzer ''admin' OR 1=1 -- '' 1)"
    by (intro reach_line reach_new)
  have c: "sql_injection_count (stats (analyze_line LogAnalyzer ''admin' OR 1=1 -- '' 1)) = 1"
    by (simp add: al_sql_count quote_line_eval LogAnalyzer_def)
  have x: "xss_count (stats (analyze_line LogAnalyzer ''admin' OR 1=1 -- '' 1)) = 0"
    by (simp add: al_xss_count quote_line_eval LogAnalyzer_def)
  show ?thesis
    using h c x counts_equal_list_lengths [OF h] by simp
qed

text \<open>
  C1. For every list of lines, the report of \<open>analyze_file\<close> has \<open>total_attacks\<close> equal to
  the sum of the four category counts of the report, and equal to the sum of the lengths of
  the four event lists it returns. The total is computed by \<open>analyze_file\<close> only:
  \<open>analyze_line\<close>, and so the whole loop, leaves the field \<open>total_attacks\<close> unchanged.
\<close>

theorem total_attacks_is_sum:
  "reachable s \<Longrightarrow>
     r_total_attacks (r_stats (snd (analyze_file s f))) =
       r_sql_injection_count (r_stats (snd (analyze_file s f))) +
       r_xss_count (r_stats (snd (analyze_file s f))) +
       r_ddos_count (r_stats (snd (analyze_file s f))) +
       r_brute_force_count (r_stats (snd (analyze_file s f))) \<and>
     r_total_attacks (r_stats (snd (analyze_file s f))) =
       int (length (r_sql_injection (snd (analyze_file s f)))) +
       int (length (r_xss (snd (analyze_file s f)))) +
       int (length (r_ddos (snd (analyze_file s f)))) +
       int (length (r_brute_force (snd (analyze_file s f)))) \<and>
     total_attacks (stats (analyze_line s l n)) = total_attacks (stats s) \<and>
     total_attacks (stats (analyze_lines s n f)) = total_attacks (stats s)"
proof -
  assume r: "reachable s"
  have "reachable (analyze_lines s 0 f)"
    using r by (rule reachable_analyze_lines)
  then have c: "sql_injection_count (stats (analyze_lines s 0 f)) =
        int (length (sql_injection (attacks (analyze_lines s 0 f)))) \<and>
      xss_count (stats (analyze_lines s 0 f)) = int (length (xss (attacks (analyze_lines s 0 f)))) \<and>
      ddos_count (stats (analyze_lines s 0 f)) = int (length (ddos (attacks (analyze_lines s 0 f)))) \<and>
      brute_force_count (stats (analyze_lines s 0 f)) =
        int (length (brute_force (attacks (analyze_lines s 0 f))))"
    by (rule counts_are_lengths)
  have t: "total_attacks (stats (analyze_lines s n f)) = total_attacks (stats s)"
    by (induction f arbitrary: s n) (simp_all add: al_total)
  show ?thesis
    using c t by (simp add: analyze_file_def Let_def al_total)
qed

theorem total_attacks_is_sum_witness:
  "reachable LogAnalyzer \<and>
   r_total_attacks (r_stats (snd (analyze_file LogAnalyzer [''admin' OR 1=1 -- '']))) = 1 \<and>
   length (r_sql_injection (snd (analyze_file LogAnalyzer [''admin' OR 1=1 -- '']))) = 1 \<and>
   length (r_xss (snd (analyze_file LogAnalyzer [''admin' OR 1=1 -- '']))) = 0 \<and>
   length (r_ddos (snd (analyze_file LogAnalyzer [''admin' OR 1=1 -- '']))) = 0 \<and>
   length (r_brute_force (snd (analyze_file LogAnalyzer [''admin' OR 1=1 -- '']))) = 0"
proof -
  have l: "length (r_sql_injection (snd (analyze_file LogAnalyzer [''admin' OR 1=1 -- '']))) = 1"
    "length (r_xss (snd (analyze_file LogAnalyzer [''admin' OR 1=1 -- '']))) = 0"
    "length (r_ddos (snd (analyze_file LogAnalyzer [''admin' OR 1=1 -- '']))) = 0"
    "length (r_brute_force (snd (analyze_file LogAnalyzer [''admin' OR 1=1 -- '']))) = 0"
    by (simp_all add: analyze_file_def Let_def al_sql_list al_xss_list al_ddos_list al_brute_list
        ddos_new_no_ip quote_line_eval LogAnalyzer_def)
  show ?thesis
    using l reach_new
      total_attacks_is_sum [OF reach_new, of "[''admin' OR 1=1 -- '']" "[]" 0]
    by simp
qed



text \<open>
  C7. The checks of one line do not depend on each other's outcome: each of the four
  categories grows by one event, carrying the line number of the call, exactly when its own
  check holds (for DDoS: when \<open>ddos_new\<close> is not empty), whatever the other checks found. A
  line that contains both \<open>failed login\<close> and \<open>javascript:\<close> increments both
  \<open>brute_force_count\<close> and \<open>xss_count\<close> by 1, with the same line number in both events.
\<close>

theorem checks_are_independent:
  "sql_injection_count (stats (analyze_line s l n)) =
     sql_injection_count (stats s) + (if re_search True sql_re l \<noteq> None then 1 else 0) \<and>
   xss_count (stats (analyze_line s l n)) =
     xss_count (stats s) + (if re_search True xss_re l \<noteq> None then 1 else 0) \<and>
   ddos_count (stats (analyze_line s l n)) =
     ddos_count (stats s) + int (length (ddos_new s l n)) \<and>
   brute_force_count (stats (analyze_line s l n)) =
     brute_force_count (stats s) + (if re_search True brute_re l \<noteq> None then 1 else 0) \<and>
   sql_injection (attacks (analyze_line s l n)) =
     sql_injection (attacks s) @
       (if re_search True sql_re l \<noteq> None
        then [\<lparr>ev_line = n, ev_ip = extract_ip l, ev_content = strip l\<rparr>] else []) \<and>
   xss (attacks (analyze_line s l n)) =
     xss (attacks s) @
       (if re_search True xss_re l \<noteq> None
        then [\<lparr>ev_line = n, ev_ip = extract_ip l, ev_content = strip l\<rparr>] else []) \<and>
   ddos (attacks (analyze_line s l n)) = ddos (attacks s) @ ddos_new s l n \<and>
   brute_force (attacks (analyze_line s l n)) =
     brute_force (attacks s) @
       (if re_search True brute_re l \<noteq> None
        then [\<lparr>ev_line = n, ev_ip = extract_ip l, ev_content = strip l\<rparr>] else []) \<and>
   (contains_ci l ''failed login'' \<and> contains_ci l ''javascript:'' \<longrightarrow>
      brute_force_count (stats (analyze_line s l n)) = brute_force_count (stats s) + 1 \<and>
      xss_count (stats (analyze_line s l n)) = xss_count (stats s) + 1 \<and>
      brute_force (attacks (analyze_line s l n)) =
        brute_force (attacks s) @ [\<lparr>ev_line = n, ev_ip = extract_ip l, ev_content = strip l\<rparr>] \<and>
      xss (attacks (analyze_line s l n)) =
        xss (attacks s) @ [\<lparr>ev_line = n, ev_ip = extract_ip l, ev_content = strip l\<rparr>])"
proof -
  have both: "re_search True brute_re l \<noteq> None \<and> re_search True xss_re l \<noteq> None"
    if "contains_ci l ''failed login''" "contains_ci l ''javascript:''"
    using that unfolding brute_re_matches_iff xss_re_matches_iff by blast
  show ?thesis
    unfolding al_sql_count al_xss_count al_ddos_count al_brute_count
      al_sql_list al_xss_list al_ddos_list al_brute_list
    using both by simp
qed

theorem checks_are_independent_witness:
  "contains_ci ''failed login javascript:'' ''failed login'' \<and>
   contains_ci ''failed login javascript:'' ''javascript:'' \<and>
   brute_force_count (stats (analyze_line LogAnalyzer ''failed login javascript:'' 3)) = 1 \<and>
   xss_count (stats (analyze_line LogAnalyzer ''failed login javascript:'' 3)) = 1 \<and>
   map ev_line (brute_force (attacks (analyze_line LogAnalyzer ''failed login javascript:'' 3))) = [3] \<and>
   map ev_line (xss (attacks (analyze_line LogAnalyzer ''failed login javascript:'' 3))) = [3]"
proof -
  have a: "contains_ci ''failed login javascript:'' ''failed login''"
    by (rule contains_ci_intro[of _ "[]" _ "'' javascript:''"]) simp
  have b: "contains_ci ''failed login javascript:'' ''javascript:''"
    by (rule contains_ci_intro[of _ "''failed login ''" _ "[]"]) simp
  have "contains_ci ''failed login javascript:'' ''failed login'' \<and>
      contains_ci ''failed login javascript:'' ''javascript:'' \<longrightarrow>
      brute_force_count (stats (analyze_line LogAnalyzer ''failed login javascript:'' 3)) =
        brute_force_count (stats LogAnalyzer) + 1 \<and>
      xss_count (stats (analyze_line LogAnalyzer ''failed login javascript:'' 3)) =
        xss_count (stats LogAnalyzer) + 1 \<and>
      brute_force (attacks (analyze_line LogAnalyzer ''failed login javascript:'' 3)) =
        brute_force (attacks LogAnalyzer) @
          [\<lparr>ev_line = 3, ev_ip = extract_ip ''failed login javascript:'',
            ev_content = strip ''failed login javascript:''\<rparr>] \<and>
      xss (attacks (analyze_line LogAnalyzer ''failed login javascript:'' 3)) =
        xss (attacks LogAnalyzer) @
          [\<lparr>ev_line = 3, ev_ip = extract_ip ''failed login javascript:'',
            ev_content = strip ''failed login javascript:''\<rparr>]"
    using checks_are_independent [of LogAnalyzer "''failed login javascript:''" 3]
    by (elim conjE)
  then have c: "brute_force_count (stats (analyze_line LogAnalyzer ''failed login javascript:'' 3)) =
        brute_force_count (stats LogAnalyzer) + 1 \<and>
      xss_count (stats (analyze_line LogAnalyzer ''failed login javascript:'' 3)) =
        xss_count (stats LogAnalyzer) + 1 \<and>
      brute_force (attacks (analyze_line LogAnalyzer ''failed login javascript:'' 3)) =
        brute_force (attacks LogAnalyzer) @
          [\<lparr>ev_line = 3, ev_ip = extract_ip ''failed login javascript:'',
            ev_content = strip ''failed login javascript:''\<rparr>] \<and>
      xss (attacks (analyze_line LogAnalyzer ''failed login javascript:'' 3)) =
        xss (attacks LogAnalyzer) @
          [\<lparr>ev_line = 3, ev_ip = extract_ip ''failed login javascript:'',
            ev_content = strip ''failed login javascript:''\<rparr>]"
    by (rule mp) (intro conjI a b)
  have z: "brute_force_count (stats LogAnalyzer) = 0" "xss_count (stats LogAnalyzer) = 0"
    "brute_force (attacks LogAnalyzer) = []" "xss (attacks LogAnalyzer) = []"
    by (simp_all add: LogAnalyzer_def)
  show ?thesis
    using a b c unfolding z by simp
qed

text \<open>
  C5 (extraction of the address and its count).  The extraction returns at most one address:
  the leftmost part of the line that consists of four groups of one to three digits separated
  by dots (no check of the numeric range) and that has no word character directly before it
  and none directly after it; it returns nothing exactly when the line has no such part.  If an
  address is found, its entry of the frequency table grows by exactly 1 and no other entry
  changes, whatever the attack patterns find on the line; if none is found the table is
  unchanged.
\<close>

theorem address_extraction:
  "(extract_ip l = Some m \<longleftrightarrow> first_ip_occurrence l m) \<and>
   (extract_ip l = None \<longleftrightarrow> \<not> (\<exists>p m q. ip_occurrence l p m q)) \<and>
   (extract_ip l = Some m \<longrightarrow>
      freq (ip_frequency (analyze_line s l n)) m = freq (ip_frequency s) m + 1 \<and>
      (\<forall>a. a \<noteq> m \<longrightarrow> freq (ip_frequency (analyze_line s l n)) a = freq (ip_frequency s) a)) \<and>
   (extract_ip l = None \<longrightarrow> ip_frequency (analyze_line s l n) = ip_frequency s)"
proof -
  have a: "extract_ip l = Some m \<longleftrightarrow> first_ip_occurrence l m"
    by (rule extract_ip_Some_iff)
  have b: "extract_ip l = None \<longleftrightarrow> \<not> (\<exists>p m q. ip_occurrence l p m q)"
    by (rule extract_ip_None_iff)
  have c: "extract_ip l = Some m \<longrightarrow>
      freq (ip_frequency (analyze_line s l n)) m = freq (ip_frequency s) m + 1 \<and>
      (\<forall>a. a \<noteq> m \<longrightarrow> freq (ip_frequency (analyze_line s l n)) a = freq (ip_frequency s) a)"
    by (simp add: al_freq_Some freq_dd_incr)
  have d: "extract_ip l = None \<longrightarrow> ip_frequency (analyze_line s l n) = ip_frequency s"
    by (simp add: al_freq_None)
  from a b c d show ?thesis by (intro conjI)
qed

theorem address_extraction_witness:
  "extract_ip ''1.2.3.4'' = Some ''1.2.3.4'' \<and> first_ip_occurrence ''1.2.3.4'' ''1.2.3.4'' \<and>
   freq (ip_frequency (analyze_line LogAnalyzer ''1.2.3.4'' 1)) ''1.2.3.4'' = 1 \<and>
   extract_ip ''1234.56.7.8'' = None \<and>
   ip_frequency (analyze_line LogAnalyzer ''1234.56.7.8'' 2) = []"
proof -
  have z: "freq (ip_frequency LogAnalyzer) ''1.2.3.4'' = 0" "ip_frequency LogAnalyzer = []"
    by (simp_all add: LogAnalyzer_def freq_def)
  show ?thesis
    using address_extraction [of "''1.2.3.4''" "''1.2.3.4''" LogAnalyzer 1]
      address_extraction [of "''1234.56.7.8''" "''1.2.3.4''" LogAnalyzer 2]
    by (simp add: address_line_eval embedded_line_eval z freq_def)
qed

text \<open>
  The delimitation by word boundaries in C5 is needed: the line \<^verbatim>\<open>1234.56.7.8\<close> has the part
  \<^verbatim>\<open>234.56.7.8\<close>, which is shaped like four dot-separated groups of one to three digits, and
  yet no address is extracted from it and the frequency table is unchanged.
\<close>

theorem first_shaped_substring_counterexample:
  "''1234.56.7.8'' = ''1'' @ ''234.56.7.8'' @ [] \<and> ipv4_shaped ''234.56.7.8'' \<and>
   extract_ip ''1234.56.7.8'' = None \<and>
   ip_frequency (analyze_line LogAnalyzer ''1234.56.7.8'' 1) = ip_frequency LogAnalyzer"
  using shaped_example by (simp add: embedded_line_eval al_freq_None)

text \<open>
  C10 (word boundaries of the address).  An extracted address is a part of the line shaped
  like four dot-separated digit groups which is delimited by word boundaries; in particular the
  character before it and the character after it, if any, are not digits, so a group inside a
  run of four or more digits gives no match, not even a truncated one.  From the line
  \<^verbatim>\<open>1234.56.7.8\<close> no address is extracted and the frequency table is left unchanged.
\<close>

theorem address_needs_word_boundaries:
  "(extract_ip l = Some m \<longrightarrow>
      (\<exists>p q. l = p @ m @ q \<and> ipv4_shaped m \<and> \<not> word_before p \<and> \<not> word_after q \<and>
         (p = [] \<or> \<not> is_digit (last p)) \<and> (q = [] \<or> \<not> is_digit (hd q)))) \<and>
   extract_ip ''1234.56.7.8'' = None \<and>
   ip_frequency (analyze_line s ''1234.56.7.8'' n) = ip_frequency s"
proof -
  have "\<exists>p q. l = p @ m @ q \<and> ipv4_shaped m \<and> \<not> word_before p \<and> \<not> word_after q \<and>
         (p = [] \<or> \<not> is_digit (last p)) \<and> (q = [] \<or> \<not> is_digit (hd q))"
    if "extract_ip l = Some m"
  proof -
    from that obtain p q where o: "l = p @ m @ q" "ipv4_shaped m" "\<not> word_before p"
      "\<not> word_after q"
      unfolding extract_ip_Some_iff first_ip_occurrence_def ip_occurrence_def by blast
    from o(3) have "p = [] \<or> \<not> is_digit (last p)"
      using digit_is_word by (auto simp: word_before_def)
    moreover from o(4) have "q = [] \<or> \<not> is_digit (hd q)"
      using digit_is_word by (auto simp: word_after_def)
    ultimately show ?thesis using o by blast
  qed
  then show ?thesis
    by (simp add: embedded_line_eval al_freq_None)
qed

theorem address_needs_word_boundaries_witness:
  "extract_ip ''1.2.3.4'' = Some ''1.2.3.4'' \<and>
   (\<exists>p q. ''1.2.3.4'' = p @ ''1.2.3.4'' @ q \<and> \<not> word_before p \<and> \<not> word_after q) \<and>
   extract_ip ''1234.56.7.8'' = None"
proof -
  have e: "extract_ip ''1.2.3.4'' = Some ''1.2.3.4''" by (rule address_line_eval)
  from address_needs_word_boundaries [of "''1.2.3.4''" "''1.2.3.4''" LogAnalyzer 1] e
  have "\<exists>p q. ''1.2.3.4'' = p @ ''1.2.3.4'' @ q \<and> ipv4_shaped ''1.2.3.4'' \<and>
      \<not> word_before p \<and> \<not> word_after q \<and>
      (p = [] \<or> \<not> is_digit (last p)) \<and> (q = [] \<or> \<not> is_digit (hd q))"
    by (elim conjE impE) assumption
  then have "\<exists>p q. ''1.2.3.4'' = p @ ''1.2.3.4'' @ q \<and> \<not> word_before p \<and> \<not> word_after q"
    by blast
  with e show ?thesis by (simp add: embedded_line_eval)
qed

text \<open>
  C3 (unique addresses and the keys of the table).  In every state that an analyzer can reach,
  hence after every \<open>analyze_line\<close>, the set \<open>unique_ips\<close> is the set of the keys of
  \<open>ip_frequency\<close>, and no key occurs twice in the table.  In the report of \<open>analyze_file\<close>
  the value of \<open>unique_ips\<close> is the number of distinct keys of the returned table, which is
  its number of entries; for an analyzer as constructed it is the number of distinct addresses
  extracted from the lines of the file.
\<close>

theorem unique_ips_are_frequency_keys:
  assumes "reachable s"
  shows "unique_ips (stats s) = fst ` set (ip_frequency s) \<and>
     distinct (map fst (ip_frequency s)) \<and>
     r_unique_ips (r_stats (snd (analyze_file s f))) =
       int (card (fst ` set (r_ip_frequency (snd (analyze_file s f))))) \<and>
     r_unique_ips (r_stats (snd (analyze_file s f))) =
       int (length (r_ip_frequency (snd (analyze_file s f)))) \<and>
     r_unique_ips (r_stats (snd (analyze_file LogAnalyzer f))) =
       int (card {a. \<exists>l\<in>set f. extract_ip l = Some a})"
proof -
  have r: "reachable (analyze_lines s 0 f)"
    using assms by (rule reachable_analyze_lines)
  note i = unique_keys_inv[OF r]
  have "card (fst ` set (ip_frequency (analyze_lines s 0 f))) =
          length (ip_frequency (analyze_lines s 0 f))"
    using i distinct_card[of "map fst (ip_frequency (analyze_lines s 0 f))"] by simp
  moreover have "unique_ips (stats (analyze_lines LogAnalyzer 0 f)) =
      {a. \<exists>l\<in>set f. extract_ip l = Some a}"
    by (simp add: unique_analyze_lines) (simp add: LogAnalyzer_def)
  ultimately show ?thesis
    using unique_keys_inv[OF assms] i by (simp add: analyze_file_fields)
qed

theorem unique_ips_are_frequency_keys_witness:
  "reachable LogAnalyzer \<and>
   r_ip_frequency (snd (analyze_file LogAnalyzer [''1.2.3.4'', ''1.2.3.4''])) = [(''1.2.3.4'', 2)] \<and>
   r_unique_ips (r_stats (snd (analyze_file LogAnalyzer [''1.2.3.4'', ''1.2.3.4'']))) = 1"
proof -
  let ?f = "[''1.2.3.4'', ''1.2.3.4'']"
  have t: "r_ip_frequency (snd (analyze_file LogAnalyzer ?f)) = [(''1.2.3.4'', 2)]"
    unfolding analyze_file_fields by (rule two_lines_table)
  have "r_unique_ips (r_stats (snd (analyze_file LogAnalyzer ?f))) =
      int (length (r_ip_frequency (snd (analyze_file LogAnalyzer ?f))))"
    using unique_ips_are_frequency_keys [OF reach_new, of ?f] by (elim conjE)
  then have "r_unique_ips (r_stats (snd (analyze_file LogAnalyzer ?f))) = 1"
    unfolding t by simp
  with t reach_new show ?thesis by (intro conjI)
qed

text \<open>
  C2 (the DDoS latch).  In every state that an analyzer can reach and for every address, the
  list of DDoS events has at most one entry for the address, and it has one exactly when the
  count of the address is above 100; every entry carries an address and the count 101.  Counts
  never decrease.  A call of \<open>analyze_line\<close> appends an event exactly when the line has an
  address whose count was not above 100 before the line and is above 100 after it (so at 101,
  not at 100); the event carries the number of that line and the count after the increment.
  Once the count is above 100 nothing more is appended for the address.
\<close>

theorem ddos_latch:
  assumes "reachable s"
  shows "length (filter (\<lambda>e. dd_ip e = Some a) (ddos (attacks s))) \<le> 1 \<and>
     (list_ex (\<lambda>e. dd_ip e = Some a) (ddos (attacks s)) \<longleftrightarrow> 100 < freq (ip_frequency s) a) \<and>
     (\<forall>e\<in>set (ddos (attacks s)). dd_ip e \<noteq> None \<and> dd_count e = 101) \<and>
     freq (ip_frequency s) a \<le> freq (ip_frequency (analyze_line s l n)) a \<and>
     ddos (attacks (analyze_line s l n)) = ddos (attacks s) @
      (case extract_ip l of None \<Rightarrow> []
       | Some b \<Rightarrow>
           if \<not> 100 < freq (ip_frequency s) b \<and> 100 < freq (ip_frequency (analyze_line s l n)) b
           then [\<lparr>dd_line = n, dd_ip = Some b,
                  dd_count = freq (ip_frequency (analyze_line s l n)) b\<rparr>]
           else [])"
proof -
  note i = ddos_inv[OF assms]
  from i have a: "length (filter (\<lambda>e. dd_ip e = Some a) (ddos (attacks s))) \<le> 1" by blast
  from i have b: "list_ex (\<lambda>e. dd_ip e = Some a) (ddos (attacks s)) \<longleftrightarrow>
      100 < freq (ip_frequency s) a" by blast
  from i have c: "\<forall>e\<in>set (ddos (attacks s)). dd_ip e \<noteq> None \<and> dd_count e = 101" by blast
  from a b c freq_mono[of s a l n] ddos_step[OF assms, of l n] show ?thesis by (intro conjI)
qed

theorem ddos_latch_witness:
  "reachable (analyze_lines LogAnalyzer 0 (replicate 100 ''1.2.3.4'')) \<and>
   ddos (attacks (analyze_lines LogAnalyzer 0 (replicate 100 ''1.2.3.4''))) = [] \<and>
   ddos (attacks (analyze_lines LogAnalyzer 0 (replicate 101 ''1.2.3.4''))) =
     [\<lparr>dd_line = 101, dd_ip = Some ''1.2.3.4'', dd_count = 101\<rparr>] \<and>
   ddos (attacks (analyze_lines LogAnalyzer 0 (replicate 102 ''1.2.3.4''))) =
     [\<lparr>dd_line = 101, dd_ip = Some ''1.2.3.4'', dd_count = 101\<rparr>]"
proof -
  let ?l = "''1.2.3.4''"
  let ?s = "\<lambda>k. analyze_lines LogAnalyzer 0 (replicate k ?l)"
  have x: "extract_ip ?l = Some ?l" by (rule address_line_eval)
  have z: "freq (ip_frequency LogAnalyzer) ?l = 0" "ddos (attacks LogAnalyzer) = []"
    by (simp_all add: LogAnalyzer_def freq_def)
  have f: "freq (ip_frequency (?s k)) ?l = int k" for k
    by (simp add: freq_replicate[OF x] z)
  have r: "reachable (?s k)" for k
    using reach_new by (rule reachable_analyze_lines)
  have n: "?s (Suc k) = analyze_line (?s k) ?l (int k + 1)" for k
    using analyze_lines_replicate_Suc[of LogAnalyzer 0 k ?l] by simp
  have d100: "ddos (attacks (?s 100)) = []"
    using ddos_replicate_below[OF x, of LogAnalyzer 100 0] by (simp add: z)
  have "ddos (attacks (analyze_line (?s 100) ?l 101)) = ddos (attacks (?s 100)) @
      (case extract_ip ?l of None \<Rightarrow> []
       | Some b \<Rightarrow>
           if \<not> 100 < freq (ip_frequency (?s 100)) b \<and>
              100 < freq (ip_frequency (analyze_line (?s 100) ?l 101)) b
           then [\<lparr>dd_line = 101, dd_ip = Some b,
                  dd_count = freq (ip_frequency (analyze_line (?s 100) ?l 101)) b\<rparr>]
           else [])"
    using ddos_latch [OF r, of ?l 100 ?l 101] by (elim conjE)
  moreover have "analyze_line (?s 100) ?l 101 = ?s 101"
    using n[of 100] by simp
  ultimately have d101: "ddos (attacks (?s 101)) =
      [\<lparr>dd_line = 101, dd_ip = Some ?l, dd_count = 101\<rparr>]"
    by (simp add: x f d100)
  have "ddos (attacks (analyze_line (?s 101) ?l 102)) = ddos (attacks (?s 101)) @
      (case extract_ip ?l of None \<Rightarrow> []
       | Some b \<Rightarrow>
           if \<not> 100 < freq (ip_frequency (?s 101)) b \<and>
              100 < freq (ip_frequency (analyze_line (?s 101) ?l 102)) b
           then [\<lparr>dd_line = 102, dd_ip = Some b,
                  dd_count = freq (ip_frequency (analyze_line (?s 101) ?l 102)) b\<rparr>]
           else [])"
    using ddos_latch [OF r, of ?l 101 ?l 102] by (elim conjE)
  moreover have "analyze_line (?s 101) ?l 102 = ?s 102"
    using n[of 101] by simp
  ultimately have d102: "ddos (attacks (?s 102)) =
      [\<lparr>dd_line = 101, dd_ip = Some ?l, dd_count = 101\<rparr>]"
    by (simp add: x f d101)
  from r[of 100] d100 d101 d102 show ?thesis by (intro conjI)
qed


end
